theory Spec2Isabelle
  imports Main "HOL-Library.Word" "HOL-Library.List_Lexorder"
begin

section \<open>The relational mailserver backend (mailserver/mailserver_db_postgres.go)\<close>

text \<open>
  The Go file talks to PostgreSQL through five SQL statements over one table,
  \<^verbatim>\<open>envelopes (id bytea primary key, data bytea, topic bytea, bloom bit(512))\<close>.
  The embedding keeps the table as a list of rows and gives each statement the
  meaning PostgreSQL gives it: \<^verbatim>\<open>bytea\<close> values compare lexicographically, byte by
  byte and unsigned, a proper prefix being smaller (the order of
  \<^theory_text>\<open>List_Lexorder\<close> on lists of 8-bit words); \<^verbatim>\<open>bit(512)\<close> values are lists
  of 512 booleans.
\<close>

subsection \<open>Data\<close>

type_synonym byte = "8 word"
type_synonym bytes = "byte list"
type_synonym uint32 = "32 word"

text \<open>\<^verbatim>\<open>types.TopicType\<close> is \<^verbatim>\<open>[4]byte\<close>.\<close>

type_synonym TopicType = "byte \<times> byte \<times> byte \<times> byte"

text \<open>
  \<^verbatim>\<open>types.Envelope\<close> is an interface; the record holds what its methods return.
  \<^verbatim>\<open>Hash()\<close> is a \<^verbatim>\<open>[32]byte\<close>, kept as a list whose length is 32
  (\<open>wf_Envelope\<close>). \<^verbatim>\<open>Unwrap()\<close> is the value handed to the RLP encoder.
\<close>

record 'u Envelope =
  Topic :: TopicType
  Expiry :: uint32
  TTL :: uint32
  Hash :: bytes
  Bloom :: bytes
  Size :: int
  Unwrap :: 'u

definition wf_Envelope :: "'u Envelope \<Rightarrow> bool" where
  "wf_Envelope env = (length (Hash env) = 32)"

text \<open>A row of the table \<^verbatim>\<open>envelopes\<close>.\<close>

record row =
  id_col :: bytes
  data_col :: bytes
  topic_col :: bytes
  bloom_col :: "bool list"

text \<open>
  Modelled from the spec: the declaration of \<^verbatim>\<open>CursorQuery\<close> is not part of the
  sources at hand; the fields are the ones \<^verbatim>\<open>BuildIterator\<close> reads
  (\<^verbatim>\<open>start\<close>, \<^verbatim>\<open>end\<close>, \<^verbatim>\<open>cursor\<close>, \<^verbatim>\<open>topics\<close>, \<^verbatim>\<open>bloom\<close>, \<^verbatim>\<open>limit\<close>), with
  \<^verbatim>\<open>limit\<close> an integer as in the spec's "limit <= 0".
\<close>

record CursorQuery =
  start :: bytes
  end_q :: bytes
  cursor :: bytes
  topics :: "bytes list"
  bloom :: bytes
  limit :: int

text \<open>
  Errors. \<^verbatim>\<open>ErrNoRows\<close> is \<^verbatim>\<open>sql.ErrNoRows\<close>; \<^verbatim>\<open>SqlError\<close> is any other error
  of the driver; \<^verbatim>\<open>RlpError\<close> is an error of \<^verbatim>\<open>rlp.EncodeToBytes\<close>;
  \<^verbatim>\<open>ErrEncodeNil\<close> is \<^verbatim>\<open>errors.New("failed to encode envelope to bytes")\<close>.
\<close>

datatype error = ErrNoRows | SqlError string | RlpError string | ErrEncodeNil

text \<open>
  The condition of the connection during a call: which of the driver calls
  (\<^verbatim>\<open>Prepare\<close>, \<^verbatim>\<open>Exec\<close>/\<^verbatim>\<open>Query\<close>/\<^verbatim>\<open>Scan\<close>, \<^verbatim>\<open>RowsAffected\<close>) fails, if any.
\<close>

datatype fault = PrepareFault string | ExecFault string | RowsAffectedFault string

text \<open>
  The state: the table, the condition of the connection, and the three
  package-level metrics of the file.
\<close>

record state =
  envelopes :: "row list"
  fault :: "fault option"
  archivedErrorsCounter :: nat
  archivedEnvelopesCounter :: nat
  archivedEnvelopeSizeMeter :: "int list"

text \<open>The primary key constraint on \<^verbatim>\<open>id\<close>.\<close>

definition pk_unique :: "state \<Rightarrow> bool" where
  "pk_unique s = distinct (map id_col (envelopes s))"

subsection \<open>Keys\<close>

text \<open>\<^verbatim>\<open>binary.BigEndian.PutUint32\<close>: the most significant byte first.\<close>

definition PutUint32 :: "uint32 \<Rightarrow> bytes" where
  "PutUint32 v = [ucast (drop_bit 24 v), ucast (drop_bit 16 v), ucast (drop_bit 8 v), ucast v]"

definition topicToByte :: "TopicType \<Rightarrow> bytes" where
  "topicToByte t = (case t of (t0, t1, t2, t3) \<Rightarrow> [t0, t1, t2, t3])"

text \<open>
  Modelled from the spec: \<^verbatim>\<open>NewDBKey\<close> is not part of the sources at hand. The
  Archive Key is the 4-byte big-endian sent time, then the 4-byte topic, then
  the 32-byte content hash.
\<close>

definition NewDBKey :: "uint32 \<Rightarrow> TopicType \<Rightarrow> bytes \<Rightarrow> bytes" where
  "NewDBKey timestamp topic h = PutUint32 timestamp @ topicToByte topic @ h"

subsection \<open>Bit strings\<close>

text \<open>\<^verbatim>\<open>fmt.Sprintf("%08b", n)\<close> for a byte: eight binary digits, the highest first.\<close>

definition Sprintf_08b :: "byte \<Rightarrow> string" where
  "Sprintf_08b n = map (\<lambda>i. if bit n i then CHR ''1'' else CHR ''0'') [7, 6, 5, 4, 3, 2, 1, 0]"

definition toBitString :: "bytes \<Rightarrow> string" where
  "toBitString bs = foldl (\<lambda>val n. val @ Sprintf_08b n) '''' bs"

text \<open>The SQL bit-string literal \<^verbatim>\<open>B'...'\<close>.\<close>

definition bit_literal :: "string \<Rightarrow> bool list" where
  "bit_literal s = map (\<lambda>c. c = CHR ''1'') s"

text \<open>
  The explicit cast \<^verbatim>\<open>::bit(n)\<close>: the value is cut or filled with zeros on the
  right to exactly \<open>n\<close> bits.
\<close>

definition cast_bit :: "nat \<Rightarrow> bool list \<Rightarrow> bool list" where
  "cast_bit n bs = take n bs @ replicate (n - length bs) False"

text \<open>The SQL operator \<^verbatim>\<open>&\<close> on bit strings of one length.\<close>

definition bit_and :: "bool list \<Rightarrow> bool list \<Rightarrow> bool list" where
  "bit_and a b = map2 (\<lambda>x y. x \<and> y) a b"

definition bloom_bits :: "bytes \<Rightarrow> bool list" where
  "bloom_bits b = cast_bit 512 (bit_literal (toBitString b))"

text \<open>The bits of a byte, the highest first.\<close>

definition byte_bits :: "byte \<Rightarrow> bool list" where
  "byte_bits n = map (bit n) [7, 6, 5, 4, 3, 2, 1, 0]"

subsection \<open>BuildIterator\<close>

text \<open>
  The \<^verbatim>\<open>WHERE\<close> clause is built in two steps: the key range (lines 80 to 87) and
  the topic or bloom predicate (lines 89 to 94), joined by \<^verbatim>\<open>AND\<close>.
\<close>

definition where_range :: "CursorQuery \<Rightarrow> row \<Rightarrow> bool" where
  "where_range query r =
     (if length (cursor query) > 0
      then id_col r \<ge> start query \<and> id_col r < cursor query
      else id_col r \<ge> start query \<and> id_col r \<le> end_q query)"

definition where_filter :: "CursorQuery \<Rightarrow> row \<Rightarrow> bool" where
  "where_filter query r =
     (if length (topics query) > 0
      then topic_col r \<in> set (topics query)
      else bit_and (bloom_col r) (bloom_bits (bloom query)) = bloom_col r)"

text \<open>\<^verbatim>\<open>SELECT id, data FROM envelopes WHERE ... ORDER BY ID DESC LIMIT n\<close>.\<close>

definition select_desc :: "(row \<Rightarrow> bool) \<Rightarrow> row list \<Rightarrow> row list" where
  "select_desc P rows = rev (sort_key id_col (filter P rows))"

text \<open>
  The iterator is the list of the rows \<open>(id, data)\<close> it will yield, in order.
  PostgreSQL refuses a negative \<^verbatim>\<open>LIMIT\<close> when the statement is run.
\<close>

definition BuildIterator :: "state \<Rightarrow> CursorQuery \<Rightarrow> error + (bytes \<times> bytes) list" where
  "BuildIterator s query =
     (case fault s of
        Some (PrepareFault e) \<Rightarrow> Inl (SqlError e)
      | Some (ExecFault e) \<Rightarrow> Inl (SqlError e)
      | _ \<Rightarrow>
          if limit query < 0 then Inl (SqlError ''LIMIT must not be negative'')
          else Inr (take (nat (limit query))
                 (map (\<lambda>r. (id_col r, data_col r))
                    (select_desc (\<lambda>r. where_range query r \<and> where_filter query r) (envelopes s)))))"

text \<open>The rows of the same \<^verbatim>\<open>SELECT\<close> without its \<^verbatim>\<open>LIMIT\<close>.\<close>

definition scan_all :: "state \<Rightarrow> CursorQuery \<Rightarrow> (bytes \<times> bytes) list" where
  "scan_all s q = map (\<lambda>r. (id_col r, data_col r))
     (select_desc (\<lambda>r. where_range q r \<and> where_filter q r) (envelopes s))"

subsection \<open>GetEnvelope\<close>

definition GetEnvelope :: "state \<Rightarrow> bytes \<Rightarrow> error + bytes" where
  "GetEnvelope s key =
     (case fault s of
        Some (PrepareFault e) \<Rightarrow> Inl (SqlError e)
      | Some (ExecFault e) \<Rightarrow> Inl (SqlError e)
      | _ \<Rightarrow>
          (case filter (\<lambda>r. id_col r = key) (envelopes s) of
             [] \<Rightarrow> Inl ErrNoRows
           | r # _ \<Rightarrow> Inr (data_col r)))"

subsection \<open>Prune\<close>

text \<open>\<^verbatim>\<open>id BETWEEN $1 AND $2\<close>.\<close>

definition between :: "bytes \<Rightarrow> bytes \<Rightarrow> row \<Rightarrow> bool" where
  "between kl ku r = (kl \<le> id_col r \<and> id_col r \<le> ku)"

text \<open>
  \<open>t\<close> is \<^verbatim>\<open>t.Unix()\<close>, an \<^verbatim>\<open>int64\<close>; \<^verbatim>\<open>uint32(t.Unix())\<close> keeps its low 32 bits.
  The result is the pair \<^verbatim>\<open>(int, error)\<close> and the new state.
\<close>

definition Prune :: "state \<Rightarrow> int \<Rightarrow> int \<Rightarrow> (int \<times> error option) \<times> state" where
  "Prune s t batch =
     (let zero = replicate 32 (0 :: byte);
          emptyTopic = (0, 0, 0, 0);
          kl = NewDBKey 0 emptyTopic zero;
          ku = NewDBKey (word_of_int t) emptyTopic zero
      in case fault s of
           Some (PrepareFault e) \<Rightarrow> ((0, Some (SqlError e)), s)
         | Some (ExecFault e) \<Rightarrow> ((0, Some (SqlError e)), s)
         | Some (RowsAffectedFault e) \<Rightarrow>
             ((0, Some (SqlError e)),
              s\<lparr>envelopes := filter (\<lambda>r. \<not> between kl ku r) (envelopes s)\<rparr>)
         | None \<Rightarrow>
             ((int (length (filter (between kl ku) (envelopes s))), None),
              s\<lparr>envelopes := filter (\<lambda>r. \<not> between kl ku r) (envelopes s)\<rparr>))"

subsection \<open>SaveEnvelope\<close>

text \<open>\<^verbatim>\<open>INSERT INTO envelopes ... ON CONFLICT (id) DO NOTHING\<close>.\<close>

definition insert_do_nothing :: "row \<Rightarrow> row list \<Rightarrow> row list" where
  "insert_do_nothing r rows =
     (if id_col r \<in> set (map id_col rows) then rows else rows @ [r])"

text \<open>
  \<^verbatim>\<open>rlp.EncodeToBytes\<close> and the constant \<^verbatim>\<open>whisper.EnvelopeHeaderLength\<close> belong
  to other packages and are parameters. The encoder returns the Go pair
  \<^verbatim>\<open>([]byte, error)\<close>, \<open>None\<close> standing for \<^verbatim>\<open>nil\<close>.
\<close>

definition SaveEnvelope ::
  "('u \<Rightarrow> bytes option \<times> error option) \<Rightarrow> int \<Rightarrow> state \<Rightarrow> 'u Envelope \<Rightarrow> error option \<times> state" where
  "SaveEnvelope EncodeToBytes EnvelopeHeaderLength s env =
     (let topic = Topic env;
          key = NewDBKey (Expiry env - TTL env) topic (Hash env);
          (rawEnvelope, err) = EncodeToBytes (Unwrap env)
      in case err of
           Some e \<Rightarrow> (Some e, s\<lparr>archivedErrorsCounter := archivedErrorsCounter s + 1\<rparr>)
         | None \<Rightarrow>
             (case rawEnvelope of
                None \<Rightarrow> (Some ErrEncodeNil, s\<lparr>archivedErrorsCounter := archivedErrorsCounter s + 1\<rparr>)
              | Some raw \<Rightarrow>
                  (case fault s of
                     Some (PrepareFault e) \<Rightarrow> (Some (SqlError e), s)
                   | Some (ExecFault e) \<Rightarrow>
                       (Some (SqlError e), s\<lparr>archivedErrorsCounter := archivedErrorsCounter s + 1\<rparr>)
                   | _ \<Rightarrow>
                       (None,
                        s\<lparr>envelopes :=
                             insert_do_nothing
                               \<lparr>id_col = key, data_col = raw, topic_col = topicToByte topic,
                                bloom_col = bloom_bits (Bloom env)\<rparr>
                               (envelopes s),
                          archivedEnvelopesCounter := archivedEnvelopesCounter s + 1,
                          archivedEnvelopeSizeMeter :=
                            archivedEnvelopeSizeMeter s @ [EnvelopeHeaderLength + Size env]\<rparr>))))"

subsection \<open>Callers\<close>

text \<open>The key \<^verbatim>\<open>SaveEnvelope\<close> derives from an envelope (line 195).\<close>

definition envelope_key :: "'u Envelope \<Rightarrow> bytes" where
  "envelope_key env = NewDBKey (Expiry env - TTL env) (Topic env) (Hash env)"

text \<open>Saving a list of envelopes one after the other, collecting what each call returns.\<close>

fun SaveEnvelopes ::
  "('u \<Rightarrow> bytes option \<times> error option) \<Rightarrow> int \<Rightarrow> state \<Rightarrow> 'u Envelope list \<Rightarrow> error option list \<times> state" where
  "SaveEnvelopes EncodeToBytes EnvelopeHeaderLength s [] = ([], s)"
| "SaveEnvelopes EncodeToBytes EnvelopeHeaderLength s (env # envs) =
     (case SaveEnvelope EncodeToBytes EnvelopeHeaderLength s env of
        (err, s') \<Rightarrow>
          (case SaveEnvelopes EncodeToBytes EnvelopeHeaderLength s' envs of
             (errs, s'') \<Rightarrow> (err # errs, s'')))"

text \<open>
  Reading a range page by page, as a client of \<^verbatim>\<open>BuildIterator\<close> does: ask for a
  page; when it has fewer than \<^verbatim>\<open>limit\<close> rows it was the last one; otherwise ask
  again with the key of the last row as the cursor. The result is the
  concatenation of the pages. \<open>fuel\<close> bounds the number of pages, and \<open>None\<close>
  says that it did not suffice.
\<close>

fun query_pages :: "nat \<Rightarrow> state \<Rightarrow> CursorQuery \<Rightarrow> (error + (bytes \<times> bytes) list) option" where
  "query_pages 0 s query = None"
| "query_pages (Suc fuel) s query =
     (case BuildIterator s query of
        Inl e \<Rightarrow> Some (Inl e)
      | Inr page \<Rightarrow>
          if int (length page) < limit query then Some (Inr page)
          else
            (case query_pages fuel s
                    (query\<lparr>cursor := (if page = [] then cursor query else fst (last page))\<rparr>) of
               None \<Rightarrow> None
             | Some (Inl e) \<Rightarrow> Some (Inl e)
             | Some (Inr rest) \<Rightarrow> Some (Inr (page @ rest))))"

subsection \<open>Example values\<close>

text \<open>
  An encoder that fails on the empty payload, returns \<^verbatim>\<open>nil\<close> without error on
  the payload \<open>[0]\<close>, and is the identity otherwise.
\<close>

definition ex_encode :: "bytes \<Rightarrow> bytes option \<times> error option" where
  "ex_encode u =
     (if u = [] then (None, Some (RlpError ''rlp: empty''))
      else if u = [0] then (None, None)
      else (Some u, None))"

text \<open>An envelope of topic \<^verbatim>\<open>AAAA\<close> sent at \<open>sent\<close>, with hash \<open>h, h, ..., h\<close>.\<close>

definition ex_env :: "uint32 \<Rightarrow> byte \<Rightarrow> bytes Envelope" where
  "ex_env sent h =
     \<lparr>Topic = (65, 65, 65, 65), Expiry = sent + 10, TTL = 10, Hash = replicate 32 h,
      Bloom = replicate 64 1, Size = 3, Unwrap = [1, 2, 3]\<rparr>"

definition ex_empty :: state where
  "ex_empty =
     \<lparr>envelopes = [], fault = None, archivedErrorsCounter = 0,
      archivedEnvelopesCounter = 0, archivedEnvelopeSizeMeter = []\<rparr>"

text \<open>The store after saving envelopes sent at 100, 200 and 300.\<close>

definition ex_store :: state where
  "ex_store = snd (SaveEnvelopes ex_encode 20 ex_empty [ex_env 100 1, ex_env 200 2, ex_env 300 3])"

text \<open>The row that saving \<open>ex_env sent h\<close> stores.\<close>

definition ex_row :: "uint32 \<Rightarrow> byte \<Rightarrow> row" where
  "ex_row sent h =
     \<lparr>id_col = envelope_key (ex_env sent h), data_col = [1, 2, 3], topic_col = [65, 65, 65, 65],
      bloom_col = bloom_bits (replicate 64 1)\<rparr>"

text \<open>
  The same store with one more envelope, sent at 100, whose topic and hash are
  all zero.
\<close>

definition ex_store_sentinel :: state where
  "ex_store_sentinel =
     snd (SaveEnvelope ex_encode 20 ex_store ((ex_env 100 0)\<lparr>Topic := (0, 0, 0, 0)\<rparr>))"

definition ex_query :: "int \<Rightarrow> CursorQuery" where
  "ex_query n =
     \<lparr>start = NewDBKey 0 (0, 0, 0, 0) (replicate 32 0),
      end_q = NewDBKey 300 (255, 255, 255, 255) (replicate 32 255),
      cursor = [], topics = [], bloom = replicate 64 255, limit = n\<rparr>"

section \<open>Properties\<close>

subsection \<open>Keys and their order\<close>

text \<open>
  \<^verbatim>\<open>PutUint32\<close> is big-endian, so the order of the keys as byte strings follows
  the sent time: the four bytes are the base-256 digits of the time, the highest
  first.
\<close>

lemma digit_pair_less:
  fixes q r q' r' :: nat
  assumes "r < 256" and "r' < 256"
  shows "256 * q + r < 256 * q' + r' \<longleftrightarrow> q < q' \<or> (q = q' \<and> r < r')"
  using assms by arith

lemma nat_digit_less:
  fixes n m :: nat
  shows "n < m \<longleftrightarrow> n div 256 < m div 256 \<or> (n div 256 = m div 256 \<and> n mod 256 < m mod 256)"
proof -
  have "256 * (n div 256) + n mod 256 < 256 * (m div 256) + m mod 256 \<longleftrightarrow>
      n div 256 < m div 256 \<or> (n div 256 = m div 256 \<and> n mod 256 < m mod 256)"
    by (rule digit_pair_less) simp_all
  then show ?thesis
    by (simp only: mult_div_mod_eq)
qed

lemma nat_digit_eq:
  fixes n m :: nat
  shows "n = m \<longleftrightarrow> n div 256 = m div 256 \<and> n mod 256 = m mod 256"
  by (metis mult_div_mod_eq)

lemma unat_byte_of:
  fixes v :: uint32
  shows "unat (ucast (drop_bit k v) :: byte) = (unat v div 2 ^ k) mod 256"
  by (simp only: unsigned_ucast_eq unat_drop_bit_eq) (simp add: take_bit_eq_mod drop_bit_eq_div)

lemma unat_byte_low:
  fixes v :: uint32
  shows "unat (ucast v :: byte) = unat v mod 256"
  by (simp add: unsigned_ucast_eq take_bit_eq_mod)

lemma PutUint32_less: "PutUint32 a < PutUint32 b \<longleftrightarrow> a < b"
proof -
  define n m where "n = unat a" and "m = unat b"
  define n1 m1 where "n1 = n div 256" and "m1 = m div 256"
  define n2 m2 where "n2 = n1 div 256" and "m2 = m1 div 256"
  define n3 m3 where "n3 = n2 div 256" and "m3 = m2 div 256"
  have bn: "n < 2 ^ 32" and bm: "m < 2 ^ 32"
    using unsigned_less [of a] unsigned_less [of b] by (simp_all add: n_def m_def)
  have p8: "k div 2 ^ 8 = k div 256" and p16: "k div 2 ^ 16 = k div 256 div 256"
    and p24: "k div 2 ^ 24 = k div 256 div 256 div 256" for k :: nat
    by (simp_all add: div_mult2_eq [symmetric])
  have top: "n3 mod 256 = n3" "m3 mod 256 = m3"
    using bn bm by (simp_all add: n3_def n2_def n1_def m3_def m2_def m1_def div_mult2_eq [symmetric] less_mult_imp_div_less)
  have d3: "unat (ucast (drop_bit 24 a) :: byte) = n3" "unat (ucast (drop_bit 24 b) :: byte) = m3"
    using top by (simp_all only: unat_byte_of p24 n_def [symmetric] m_def [symmetric]
        n1_def [symmetric] m1_def [symmetric] n2_def [symmetric] m2_def [symmetric]
        n3_def [symmetric] m3_def [symmetric])
  have d2: "unat (ucast (drop_bit 16 a) :: byte) = n2 mod 256" "unat (ucast (drop_bit 16 b) :: byte) = m2 mod 256"
    by (simp_all only: unat_byte_of p16 n_def [symmetric] m_def [symmetric]
        n1_def [symmetric] m1_def [symmetric] n2_def [symmetric] m2_def [symmetric])
  have d1: "unat (ucast (drop_bit 8 a) :: byte) = n1 mod 256" "unat (ucast (drop_bit 8 b) :: byte) = m1 mod 256"
    by (simp_all only: unat_byte_of p8 n_def [symmetric] m_def [symmetric]
        n1_def [symmetric] m1_def [symmetric])
  have d0: "unat (ucast a :: byte) = n mod 256" "unat (ucast b :: byte) = m mod 256"
    by (simp_all only: unat_byte_low n_def [symmetric] m_def [symmetric])
  have lex: "PutUint32 a < PutUint32 b \<longleftrightarrow>
      n3 < m3 \<or> n3 = m3 \<and>
      (n2 mod 256 < m2 mod 256 \<or> n2 mod 256 = m2 mod 256 \<and>
      (n1 mod 256 < m1 mod 256 \<or> n1 mod 256 = m1 mod 256 \<and>
       n mod 256 < m mod 256))"
    unfolding PutUint32_def by (simp only: Cons_less_Cons not_less_Nil word_less_nat_alt word_unat_eq_iff d3 d2 d1 d0 simp_thms)
  have s0: "n < m \<longleftrightarrow> n1 < m1 \<or> (n1 = m1 \<and> n mod 256 < m mod 256)"
    unfolding n1_def m1_def by (rule nat_digit_less)
  have s1: "n1 < m1 \<longleftrightarrow> n2 < m2 \<or> (n2 = m2 \<and> n1 mod 256 < m1 mod 256)"
    unfolding n2_def m2_def by (rule nat_digit_less)
  have s2: "n2 < m2 \<longleftrightarrow> n3 < m3 \<or> (n3 = m3 \<and> n2 mod 256 < m2 mod 256)"
    unfolding n3_def m3_def by (rule nat_digit_less)
  have e1: "n1 = m1 \<longleftrightarrow> n2 = m2 \<and> n1 mod 256 = m1 mod 256"
    unfolding n2_def m2_def by (rule nat_digit_eq)
  have e2: "n2 = m2 \<longleftrightarrow> n3 = m3 \<and> n2 mod 256 = m2 mod 256"
    unfolding n3_def m3_def by (rule nat_digit_eq)
  have "PutUint32 a < PutUint32 b \<longleftrightarrow> n < m"
    unfolding lex s0 s1 s2 e1 e2 by blast
  then show ?thesis
    by (simp add: word_less_nat_alt n_def m_def)
qed

lemma PutUint32_inj: "PutUint32 a = PutUint32 b \<longleftrightarrow> a = b"
proof
  assume eq: "PutUint32 a = PutUint32 b"
  then have "\<not> PutUint32 a < PutUint32 b" "\<not> PutUint32 b < PutUint32 a"
    by simp_all
  then have "\<not> a < b" "\<not> b < a"
    by (simp_all add: PutUint32_less)
  then show "a = b"
    by simp
qed simp

lemma length_PutUint32: "length (PutUint32 v) = 4"
  by (simp add: PutUint32_def)

lemma append_le_append:
  fixes a b c d :: "'a::linorder list"
  assumes "length a = length b"
  shows "a @ c \<le> b @ d \<longleftrightarrow> a < b \<or> (a = b \<and> c \<le> d)"
  using assms by (induction a b rule: list_induct2) auto

lemma append_less_append:
  fixes a b c d :: "'a::linorder list"
  assumes "length a = length b"
  shows "a @ c < b @ d \<longleftrightarrow> a < b \<or> (a = b \<and> c < d)"
  using assms by (induction a b rule: list_induct2) auto

lemma zeros_le:
  fixes xs :: bytes
  shows "length xs = n \<Longrightarrow> replicate n 0 \<le> xs"
proof (induction xs arbitrary: n)
  case Nil
  then show ?case by simp
next
  case (Cons x xs)
  then obtain k where n: "n = Suc k" and k: "length xs = k"
    by (cases n) auto
  have "0 < x \<or> 0 = x"
    by (metis word_neq_0_conv)
  with Cons.IH [OF k] show ?case
    unfolding n by auto
qed

lemma le_zeros:
  fixes xs :: bytes
  shows "length xs = n \<Longrightarrow> xs \<le> replicate n 0 \<longleftrightarrow> xs = replicate n 0"
proof (induction xs arbitrary: n)
  case Nil
  then show ?case by simp
next
  case (Cons x xs)
  then obtain k where n: "n = Suc k" and k: "length xs = k"
    by (cases n) auto
  from Cons.IH [OF k] show ?case
    unfolding n by auto
qed

lemma lower_key: "NewDBKey 0 (0, 0, 0, 0) (replicate 32 0) = replicate 40 0"
  by (simp add: NewDBKey_def PutUint32_def topicToByte_def numeral_eq_Suc)

lemma length_NewDBKey: "length h = 32 \<Longrightarrow> length (NewDBKey ts tp h) = 40"
  by (cases tp) (simp add: NewDBKey_def PutUint32_def topicToByte_def)

lemma topic_hash_zero:
  assumes "length h = 32"
  shows "topicToByte tp @ h \<le> topicToByte (0, 0, 0, 0) @ replicate 32 0 \<longleftrightarrow>
         tp = (0, 0, 0, 0) \<and> h = replicate 32 0"
proof -
  obtain t0 t1 t2 t3 where tp: "tp = (t0, t1, t2, t3)"
    by (cases tp) auto
  have z: "topicToByte (0, 0, 0, 0) @ replicate 32 0 = replicate 36 (0 :: byte)"
    by (simp add: topicToByte_def numeral_eq_Suc)
  have len: "length (topicToByte tp @ h) = 36"
    using assms by (simp add: tp topicToByte_def)
  have "topicToByte tp @ h = replicate 36 0 \<longleftrightarrow> tp = (0, 0, 0, 0) \<and> h = replicate 32 0"
  proof
    assume eq: "topicToByte tp @ h = replicate 36 0"
    have "replicate 36 (0::byte) = [0, 0, 0, 0] @ replicate 32 0"
      by (simp add: numeral_eq_Suc)
    with eq have "[t0, t1, t2, t3] @ h = [0, 0, 0, 0] @ replicate 32 0"
      by (simp only: tp topicToByte_def prod.case)
    then show "tp = (0, 0, 0, 0) \<and> h = replicate 32 0"
      by (simp add: tp)
  next
    assume "tp = (0, 0, 0, 0) \<and> h = replicate 32 0"
    then show "topicToByte tp @ h = replicate 36 0"
      using z by simp
  qed
  then show ?thesis
    unfolding z using le_zeros [OF len] by simp
qed

lemma between_key:
  assumes "length h = 32"
  shows "between (NewDBKey 0 (0, 0, 0, 0) (replicate 32 0)) (NewDBKey c (0, 0, 0, 0) (replicate 32 0)) r \<and> id_col r = NewDBKey ts tp h
         \<longleftrightarrow> id_col r = NewDBKey ts tp h \<and> (ts < c \<or> (ts = c \<and> tp = (0, 0, 0, 0) \<and> h = replicate 32 0))"
proof -
  have lo: "replicate 40 0 \<le> NewDBKey ts tp h"
    using length_NewDBKey [OF assms] by (rule zeros_le)
  have "NewDBKey ts tp h \<le> NewDBKey c (0, 0, 0, 0) (replicate 32 0) \<longleftrightarrow>
      PutUint32 ts < PutUint32 c \<or> (PutUint32 ts = PutUint32 c \<and>
        topicToByte tp @ h \<le> topicToByte (0, 0, 0, 0) @ replicate 32 0)"
    unfolding NewDBKey_def by (rule append_le_append) (simp add: length_PutUint32)
  then have hi: "NewDBKey ts tp h \<le> NewDBKey c (0, 0, 0, 0) (replicate 32 0) \<longleftrightarrow>
      ts < c \<or> (ts = c \<and> tp = (0, 0, 0, 0) \<and> h = replicate 32 0)"
    by (simp only: PutUint32_less PutUint32_inj topic_hash_zero [OF assms])
  show ?thesis
    using lo hi unfolding between_def lower_key by auto
qed

lemma NewDBKey_less_sent:
  assumes "NewDBKey t2 tp2 h2 < NewDBKey t1 tp1 h1"
  shows "t2 \<le> t1"
proof -
  have "PutUint32 t2 @ (topicToByte tp2 @ h2) < PutUint32 t1 @ (topicToByte tp1 @ h1)"
    using assms by (simp only: NewDBKey_def)
  then have "PutUint32 t2 < PutUint32 t1 \<or> PutUint32 t2 = PutUint32 t1"
    by (subst (asm) append_less_append) (auto simp: length_PutUint32)
  then show ?thesis
    by (auto simp: PutUint32_less PutUint32_inj)
qed

subsection \<open>Facts about the example store\<close>

lemma ex_store_ids:
  "map id_col (envelopes ex_store) = [envelope_key (ex_env 100 1), envelope_key (ex_env 200 2), envelope_key (ex_env 300 3)]"
  by code_simp

lemma ex_store_fault: "fault ex_store = None"
  by code_simp

lemma ex_page_all:
  "BuildIterator ex_store (ex_query 5) =
     Inr [(envelope_key (ex_env 300 3), [1, 2, 3]), (envelope_key (ex_env 200 2), [1, 2, 3]),
          (envelope_key (ex_env 100 1), [1, 2, 3])]"
  by code_simp

lemma ex_page_first:
  "BuildIterator ex_store (ex_query 2) =
     Inr [(envelope_key (ex_env 300 3), [1, 2, 3]), (envelope_key (ex_env 200 2), [1, 2, 3])]"
  by code_simp

lemma ex_page_second:
  "BuildIterator ex_store ((ex_query 2)\<lparr>cursor := envelope_key (ex_env 200 2)\<rparr>) =
     Inr [(envelope_key (ex_env 100 1), [1, 2, 3])]"
  by code_simp

lemma ex_page_topics_only:
  "BuildIterator ex_store ((ex_query 5)\<lparr>topics := [[65, 65, 65, 65]], bloom := []\<rparr>) =
     Inr [(envelope_key (ex_env 300 3), [1, 2, 3]), (envelope_key (ex_env 200 2), [1, 2, 3]),
          (envelope_key (ex_env 100 1), [1, 2, 3])]"
  by code_simp

lemma ex_store_rows: "envelopes ex_store = [ex_row 100 1, ex_row 200 2, ex_row 300 3]"
  by code_simp

lemma ex_row_300_range:
  "start (ex_query 5) \<le> id_col (ex_row 300 3)"
  "id_col (ex_row 300 3) \<le> end_q (ex_query 5)"
  by code_simp+

lemma ex_bloom_mismatch:
  "bit_and (bloom_col (ex_row 300 3)) (bloom_bits []) \<noteq> bloom_col (ex_row 300 3)"
  by code_simp


subsection \<open>SaveEnvelope\<close>

lemma SaveEnvelope_success:
  assumes "fault s = None" and "EncodeToBytes (Unwrap env) = (Some raw, None)"
  shows "SaveEnvelope EncodeToBytes hdr s env =
           (None,
            s\<lparr>envelopes :=
                 insert_do_nothing
                   \<lparr>id_col = envelope_key env, data_col = raw, topic_col = topicToByte (Topic env),
                    bloom_col = bloom_bits (Bloom env)\<rparr>
                   (envelopes s),
              archivedEnvelopesCounter := archivedEnvelopesCounter s + 1,
              archivedEnvelopeSizeMeter := archivedEnvelopeSizeMeter s @ [hdr + Size env]\<rparr>)"
  using assms by (simp add: SaveEnvelope_def envelope_key_def Let_def)

lemma insert_do_nothing_present:
  "k \<in> id_col ` set rows \<Longrightarrow> id_col r = k \<Longrightarrow> insert_do_nothing r rows = rows"
  by (simp add: insert_do_nothing_def)

lemma insert_do_nothing_has_key: "id_col r \<in> id_col ` set (insert_do_nothing r rows)"
  by (simp add: insert_do_nothing_def)

lemma insert_do_nothing_distinct:
  "distinct (map id_col rows) \<Longrightarrow> distinct (map id_col (insert_do_nothing r rows))"
  by (simp add: insert_do_nothing_def)

lemma distinct_key_count:
  "distinct (map f xs) \<Longrightarrow> k \<in> f ` set xs \<Longrightarrow> length (filter (\<lambda>x. f x = k) xs) = 1"
proof (induction xs)
  case Nil
  then show ?case by simp
next
  case (Cons x xs)
  show ?case
  proof (cases "f x = k")
    case True
    with Cons.prems have "filter (\<lambda>y. f y = k) xs = []"
      by (auto simp: filter_empty_conv image_iff)
    with True show ?thesis by simp
  next
    case False
    with Cons show ?thesis by auto
  qed
qed

lemma SaveEnvelopes_duplicates:
  assumes "fault s = None" and "k \<in> id_col ` set (envelopes s)"
    and "\<forall>e\<in>set dups. envelope_key e = k \<and> (\<exists>raw. EncodeToBytes (Unwrap e) = (Some raw, None))"
  shows "set (fst (SaveEnvelopes EncodeToBytes hdr s dups)) \<subseteq> {None}
         \<and> envelopes (snd (SaveEnvelopes EncodeToBytes hdr s dups)) = envelopes s"
  using assms
proof (induction dups arbitrary: s)
  case Nil
  then show ?case by simp
next
  case (Cons e dups)
  from Cons.prems obtain raw where raw: "EncodeToBytes (Unwrap e) = (Some raw, None)" and k: "envelope_key e = k"
    by auto
  let ?s' = "snd (SaveEnvelope EncodeToBytes hdr s e)"
  have one: "fst (SaveEnvelope EncodeToBytes hdr s e) = None" "envelopes ?s' = envelopes s" "fault ?s' = None"
    using Cons.prems(1,2) k by (simp_all add: SaveEnvelope_success [where EncodeToBytes = EncodeToBytes and env = e, OF Cons.prems(1) raw] insert_do_nothing_present)
  have "set (fst (SaveEnvelopes EncodeToBytes hdr ?s' dups)) \<subseteq> {None}
         \<and> envelopes (snd (SaveEnvelopes EncodeToBytes hdr ?s' dups)) = envelopes ?s'"
    using Cons.prems one by (intro Cons.IH) simp_all
  with one show ?case
    by (simp add: case_prod_unfold)
qed

lemma filter_key_unique:
  assumes "distinct (map f xs)" and "r \<in> set xs"
  shows "filter (\<lambda>x. f x = f r) xs = [r]"
  using assms
proof (induction xs)
  case Nil
  then show ?case by simp
next
  case (Cons x xs)
  show ?case
  proof (cases "x = r")
    case True
    with Cons.prems(1) have "filter (\<lambda>y. f y = f r) xs = []"
      by (auto simp: filter_empty_conv image_iff)
    with True show ?thesis by simp
  next
    case False
    with Cons.prems have r: "r \<in> set xs" and d: "distinct (map f xs)" and "f x \<notin> f ` set xs"
      by auto
    then have "f x \<noteq> f r"
      by auto
    with Cons.IH [OF d r] show ?thesis by simp
  qed
qed

lemma GetEnvelope_stored:
  assumes "pk_unique s" and "fault s = None" and "r \<in> set (envelopes s)"
  shows "GetEnvelope s (id_col r) = Inr (data_col r)"
proof -
  have "filter (\<lambda>x. id_col x = id_col r) (envelopes s) = [r]"
    using assms(1,3) unfolding pk_unique_def by (rule filter_key_unique)
  with assms(2) show ?thesis
    by (simp add: GetEnvelope_def)
qed

lemma GetEnvelope_absent:
  assumes "fault s = None" and "k \<notin> id_col ` set (envelopes s)"
  shows "GetEnvelope s k = Inl ErrNoRows"
proof -
  have "filter (\<lambda>x. id_col x = k) (envelopes s) = []"
    using assms(2) by (auto simp: filter_empty_conv)
  with assms(1) show ?thesis
    by (simp add: GetEnvelope_def)
qed

text \<open>
  C1. Round trip. An envelope whose key is not yet in the table and whose payload
  encodes to \<open>raw\<close> is saved without error on a connection without fault, and
  \<^verbatim>\<open>GetEnvelope\<close> with the key made of the 4-byte big-endian sent time
  (\<^verbatim>\<open>Expiry - TTL\<close>), then the 4 bytes of the topic, then the hash, returns exactly
  \<open>raw\<close>. For a 32-byte hash the key has 40 bytes. The lookup is by key: on a
  table that respects the primary key, every row stored before is still returned
  under its own key with its own payload, and a key that is neither the new one
  nor a stored one gives \<^verbatim>\<open>sql.ErrNoRows\<close>.
\<close>

theorem SaveEnvelope_GetEnvelope_roundtrip:
  assumes "fault s = None"
    and "EncodeToBytes (Unwrap env) = (Some raw, None)"
    and "\<forall>r\<in>set (envelopes s). id_col r \<noteq> envelope_key env"
  shows "fst (SaveEnvelope EncodeToBytes hdr s env) = None
         \<and> GetEnvelope (snd (SaveEnvelope EncodeToBytes hdr s env))
              (PutUint32 (Expiry env - TTL env) @ topicToByte (Topic env) @ Hash env) = Inr raw
         \<and> (wf_Envelope env \<longrightarrow>
              length (PutUint32 (Expiry env - TTL env) @ topicToByte (Topic env) @ Hash env) = 40)
         \<and> (pk_unique s \<longrightarrow>
              (\<forall>r\<in>set (envelopes s).
                 GetEnvelope (snd (SaveEnvelope EncodeToBytes hdr s env)) (id_col r) = Inr (data_col r)))
         \<and> (\<forall>k. k \<noteq> envelope_key env \<and> k \<notin> id_col ` set (envelopes s) \<longrightarrow>
              GetEnvelope (snd (SaveEnvelope EncodeToBytes hdr s env)) k = Inl ErrNoRows)"
proof -
  let ?new = "\<lparr>id_col = envelope_key env, data_col = raw, topic_col = topicToByte (Topic env),
                bloom_col = bloom_bits (Bloom env)\<rparr>"
  let ?s' = "snd (SaveEnvelope EncodeToBytes hdr s env)"
  note ok = SaveEnvelope_success [where EncodeToBytes = EncodeToBytes and env = env and hdr = hdr, OF assms(1,2)]
  have absent: "filter (\<lambda>r. id_col r = envelope_key env) (envelopes s) = []"
    using assms(3) by (auto simp: filter_empty_conv)
  have notin: "envelope_key env \<notin> id_col ` set (envelopes s)"
    using assms(3) by auto
  have rows: "envelopes ?s' = envelopes s @ [?new]"
    using notin by (simp add: ok insert_do_nothing_def)
  have nf: "fault ?s' = None"
    using assms(1) by (simp add: ok)
  have key: "PutUint32 (Expiry env - TTL env) @ topicToByte (Topic env) @ Hash env = envelope_key env"
    by (simp add: envelope_key_def NewDBKey_def)
  have len: "wf_Envelope env \<Longrightarrow> length (envelope_key env) = 40"
    by (cases "Topic env") (simp add: wf_Envelope_def envelope_key_def NewDBKey_def PutUint32_def topicToByte_def)
  have 1: "fst (SaveEnvelope EncodeToBytes hdr s env) = None"
    by (simp add: ok)
  have 2: "GetEnvelope ?s' (envelope_key env) = Inr raw"
    using nf absent by (simp add: GetEnvelope_def rows)
  have 4: "GetEnvelope ?s' (id_col r) = Inr (data_col r)" if "pk_unique s" "r \<in> set (envelopes s)" for r
  proof -
    have "pk_unique ?s'"
      using that(1) notin by (simp add: pk_unique_def rows)
    moreover have "r \<in> set (envelopes ?s')"
      using that(2) by (simp add: rows)
    ultimately show ?thesis
      using nf by (intro GetEnvelope_stored)
  qed
  have 5: "GetEnvelope ?s' k = Inl ErrNoRows" if "k \<noteq> envelope_key env" "k \<notin> id_col ` set (envelopes s)" for k
  proof (rule GetEnvelope_absent [OF nf])
    show "k \<notin> id_col ` set (envelopes ?s')"
      using that by (auto simp: rows)
  qed
  show ?thesis
    unfolding key using 1 2 len 4 5 by blast
qed


theorem SaveEnvelope_GetEnvelope_roundtrip_witness:
  "fault ex_store = None
   \<and> ex_encode (Unwrap ((ex_env 400 4)\<lparr>Unwrap := [7]\<rparr>)) = (Some [7], None)
   \<and> envelope_key ((ex_env 400 4)\<lparr>Unwrap := [7]\<rparr>) \<notin> set (map id_col (envelopes ex_store))
   \<and> wf_Envelope ((ex_env 400 4)\<lparr>Unwrap := [7]\<rparr>)
   \<and> pk_unique ex_store
   \<and> fst (SaveEnvelope ex_encode 20 ex_store ((ex_env 400 4)\<lparr>Unwrap := [7]\<rparr>)) = None
   \<and> GetEnvelope (snd (SaveEnvelope ex_encode 20 ex_store ((ex_env 400 4)\<lparr>Unwrap := [7]\<rparr>)))
        (PutUint32 400 @ [65, 65, 65, 65] @ replicate 32 4) = Inr [7]
   \<and> length (PutUint32 400 @ [65, 65, 65, 65] @ replicate 32 (4 :: byte)) = 40
   \<and> GetEnvelope (snd (SaveEnvelope ex_encode 20 ex_store ((ex_env 400 4)\<lparr>Unwrap := [7]\<rparr>)))
        (envelope_key (ex_env 100 1)) = Inr [1, 2, 3]
   \<and> GetEnvelope (snd (SaveEnvelope ex_encode 20 ex_store ((ex_env 400 4)\<lparr>Unwrap := [7]\<rparr>)))
        [1, 2, 3] = Inl ErrNoRows"
proof -
  let ?e = "(ex_env 400 4)\<lparr>Unwrap := [7]\<rparr>"
  have h2: "ex_encode (Unwrap ?e) = (Some [7], None)"
    by (simp add: ex_encode_def)
  have h3': "envelope_key ?e \<notin> set (map id_col (envelopes ex_store))"
    unfolding ex_store_ids by (simp add: envelope_key_def ex_env_def NewDBKey_def PutUint32_def)
  then have h3: "\<forall>r\<in>set (envelopes ex_store). id_col r \<noteq> envelope_key ?e"
    by (auto simp: image_iff)
  have h4: "wf_Envelope ?e"
    by (simp add: wf_Envelope_def ex_env_def)
  have pk: "pk_unique ex_store"
    by code_simp
  have k: "PutUint32 (Expiry ?e - TTL ?e) @ topicToByte (Topic ?e) @ Hash ?e
             = PutUint32 400 @ [65, 65, 65, 65] @ replicate 32 4"
    by (simp add: ex_env_def topicToByte_def)
  have r0: "envelopes ex_store ! 0 \<in> set (envelopes ex_store)"
    by code_simp
  have r0id: "id_col (envelopes ex_store ! 0) = envelope_key (ex_env 100 1)"
    by code_simp
  have r0data: "data_col (envelopes ex_store ! 0) = [1, 2, 3]"
    by code_simp
  have other: "[1, 2, 3] \<noteq> envelope_key ?e \<and> [1, 2, 3] \<notin> id_col ` set (envelopes ex_store)"
    using ex_store_ids
    by (simp add: envelope_key_def ex_env_def NewDBKey_def PutUint32_def flip: set_map)
  note c = SaveEnvelope_GetEnvelope_roundtrip [where EncodeToBytes = ex_encode and hdr = 20, OF ex_store_fault h2 h3]
  have c1: "fst (SaveEnvelope ex_encode 20 ex_store ?e) = None"
    using c by blast
  have c2: "GetEnvelope (snd (SaveEnvelope ex_encode 20 ex_store ?e))
        (PutUint32 400 @ [65, 65, 65, 65] @ replicate 32 4) = Inr [7]"
    using c unfolding k by blast
  have c3: "length (PutUint32 400 @ [65, 65, 65, 65] @ replicate 32 (4 :: byte)) = 40"
    using c h4 unfolding k by blast
  have "GetEnvelope (snd (SaveEnvelope ex_encode 20 ex_store ?e)) (id_col (envelopes ex_store ! 0))
          = Inr (data_col (envelopes ex_store ! 0))"
    using c pk r0 by blast
  then have c4: "GetEnvelope (snd (SaveEnvelope ex_encode 20 ex_store ?e)) (envelope_key (ex_env 100 1)) = Inr [1, 2, 3]"
    unfolding r0id r0data .
  have c5: "GetEnvelope (snd (SaveEnvelope ex_encode 20 ex_store ?e)) [1, 2, 3] = Inl ErrNoRows"
    using c other by blast
  show ?thesis
    by (intro conjI ex_store_fault h2 h3' h4 pk c1 c2 c3 c4 c5)
qed


text \<open>
  C2. Idempotence of saving. On a table that respects the primary key and a
  connection without fault, saving an envelope and then any number of envelopes
  with the same key (the same envelope again, or another one whose payload
  encodes) returns no error at any of the calls, leaves the table as the first
  call left it (as it was before, when the key was already there: no row is
  overwritten), and the table holds exactly one row with that key.
\<close>

theorem SaveEnvelope_idempotent:
  assumes "pk_unique s" and "fault s = None"
    and "EncodeToBytes (Unwrap env) = (Some raw, None)"
    and "\<forall>e\<in>set dups. envelope_key e = envelope_key env
           \<and> (\<exists>raw'. EncodeToBytes (Unwrap e) = (Some raw', None))"
  shows "fst (SaveEnvelopes EncodeToBytes hdr s (env # dups)) = replicate (Suc (length dups)) None
         \<and> envelopes (snd (SaveEnvelopes EncodeToBytes hdr s (env # dups)))
             = envelopes (snd (SaveEnvelope EncodeToBytes hdr s env))
         \<and> (envelope_key env \<in> id_col ` set (envelopes s) \<longrightarrow>
               envelopes (snd (SaveEnvelopes EncodeToBytes hdr s (env # dups))) = envelopes s)
         \<and> length (filter (\<lambda>r. id_col r = envelope_key env)
                     (envelopes (snd (SaveEnvelopes EncodeToBytes hdr s (env # dups))))) = 1"
proof -
  let ?s1 = "snd (SaveEnvelope EncodeToBytes hdr s env)"
  note ok = SaveEnvelope_success [where EncodeToBytes = EncodeToBytes and env = env and hdr = hdr, OF assms(2,3)]
  have first: "fst (SaveEnvelope EncodeToBytes hdr s env) = None" "fault ?s1 = None"
    using assms(2) by (simp_all add: ok)
  have key: "envelope_key env \<in> id_col ` set (envelopes ?s1)"
    using insert_do_nothing_has_key [of "\<lparr>id_col = envelope_key env, data_col = raw,
        topic_col = topicToByte (Topic env), bloom_col = bloom_bits (Bloom env)\<rparr>" "envelopes s"]
    by (simp add: ok)
  have pk: "distinct (map id_col (envelopes ?s1))"
    using assms(1) by (simp add: ok pk_unique_def insert_do_nothing_distinct)
  have same: "envelope_key env \<in> id_col ` set (envelopes s) \<Longrightarrow> envelopes ?s1 = envelopes s"
    by (simp add: ok insert_do_nothing_present)
  have rest: "set (fst (SaveEnvelopes EncodeToBytes hdr ?s1 dups)) \<subseteq> {None}"
    "envelopes (snd (SaveEnvelopes EncodeToBytes hdr ?s1 dups)) = envelopes ?s1"
    using SaveEnvelopes_duplicates [where EncodeToBytes = EncodeToBytes and hdr = hdr, OF first(2) key assms(4)] by simp_all
  have len: "length (fst (SaveEnvelopes EncodeToBytes hdr t es)) = length es" for t and es :: "'a Envelope list"
    by (induction es arbitrary: t) (simp_all add: case_prod_unfold)
  have errs: "fst (SaveEnvelopes EncodeToBytes hdr ?s1 dups) = replicate (length dups) None"
    using rest(1) len [of ?s1 dups] by (metis replicate_eqI singletonD subsetD)
  show ?thesis
    using first errs rest(2) same distinct_key_count [OF pk key]
    by (simp add: case_prod_unfold)
qed

theorem SaveEnvelope_idempotent_witness:
  "pk_unique ex_store \<and> fault ex_store = None
   \<and> ex_encode (Unwrap (ex_env 300 3)) = (Some [1, 2, 3], None)
   \<and> envelope_key ((ex_env 300 3)\<lparr>Unwrap := [9]\<rparr>) = envelope_key (ex_env 300 3)
   \<and> ex_encode (Unwrap ((ex_env 300 3)\<lparr>Unwrap := [9]\<rparr>)) = (Some [9], None)
   \<and> envelope_key (ex_env 300 3) \<in> id_col ` set (envelopes ex_store)
   \<and> envelopes (snd (SaveEnvelopes ex_encode 20 ex_store
            [ex_env 300 3, ex_env 300 3, (ex_env 300 3)\<lparr>Unwrap := [9]\<rparr>])) = envelopes ex_store
   \<and> length (filter (\<lambda>r. id_col r = envelope_key (ex_env 300 3))
        (envelopes (snd (SaveEnvelopes ex_encode 20 ex_store
            [ex_env 300 3, ex_env 300 3, (ex_env 300 3)\<lparr>Unwrap := [9]\<rparr>])))) = 1"
proof -
  have h1: "pk_unique ex_store" by code_simp
  have h2: "fault ex_store = None" by (rule ex_store_fault)
  have h3: "ex_encode (Unwrap (ex_env 300 3)) = (Some [1, 2, 3], None)"
    by (simp add: ex_encode_def ex_env_def)
  have h4: "\<forall>e\<in>set [ex_env 300 3, (ex_env 300 3)\<lparr>Unwrap := [9]\<rparr>].
         envelope_key e = envelope_key (ex_env 300 3)
         \<and> (\<exists>raw'. ex_encode (Unwrap e) = (Some raw', None))"
    by (simp add: ex_encode_def ex_env_def envelope_key_def)
  have "envelope_key (ex_env 300 3) \<in> set (map id_col (envelopes ex_store))"
    unfolding ex_store_ids by simp
  then have h5: "envelope_key (ex_env 300 3) \<in> id_col ` set (envelopes ex_store)"
    by simp
  note c = SaveEnvelope_idempotent [where EncodeToBytes = ex_encode and hdr = 20, OF h1 h2 h3 h4]
  from c h5 have c3: "envelopes (snd (SaveEnvelopes ex_encode 20 ex_store
            [ex_env 300 3, ex_env 300 3, (ex_env 300 3)\<lparr>Unwrap := [9]\<rparr>])) = envelopes ex_store"
    by blast
  from c have c4: "length (filter (\<lambda>r. id_col r = envelope_key (ex_env 300 3))
        (envelopes (snd (SaveEnvelopes ex_encode 20 ex_store
            [ex_env 300 3, ex_env 300 3, (ex_env 300 3)\<lparr>Unwrap := [9]\<rparr>])))) = 1"
    by blast
  have h6: "envelope_key ((ex_env 300 3)\<lparr>Unwrap := [9]\<rparr>) = envelope_key (ex_env 300 3)"
    by (simp add: envelope_key_def)
  have h7: "ex_encode (Unwrap ((ex_env 300 3)\<lparr>Unwrap := [9]\<rparr>)) = (Some [9], None)"
    by (simp add: ex_encode_def)
  show ?thesis
    by (intro conjI h1 h2 h3 h5 h6 h7 c3 c4)
qed

text \<open>
  C7. Failure to encode. When \<^verbatim>\<open>rlp.EncodeToBytes\<close> returns an error, or returns
  \<^verbatim>\<open>nil\<close>, \<^verbatim>\<open>SaveEnvelope\<close> returns that error (the error of line 204 in the
  second case), adds exactly one to the counter of archive errors and changes
  nothing else: the table, the counter of archived envelopes and the size
  histogram are as before.
\<close>

theorem SaveEnvelope_encode_failure:
  assumes "fst (EncodeToBytes (Unwrap env)) = None \<or> snd (EncodeToBytes (Unwrap env)) \<noteq> None"
  shows "fst (SaveEnvelope EncodeToBytes hdr s env) =
           (case snd (EncodeToBytes (Unwrap env)) of Some e \<Rightarrow> Some e | None \<Rightarrow> Some ErrEncodeNil)
         \<and> snd (SaveEnvelope EncodeToBytes hdr s env) =
             s\<lparr>archivedErrorsCounter := archivedErrorsCounter s + 1\<rparr>
         \<and> envelopes (snd (SaveEnvelope EncodeToBytes hdr s env)) = envelopes s
         \<and> archivedErrorsCounter (snd (SaveEnvelope EncodeToBytes hdr s env)) = archivedErrorsCounter s + 1
         \<and> archivedEnvelopesCounter (snd (SaveEnvelope EncodeToBytes hdr s env)) = archivedEnvelopesCounter s
         \<and> archivedEnvelopeSizeMeter (snd (SaveEnvelope EncodeToBytes hdr s env)) = archivedEnvelopeSizeMeter s"
proof (cases "EncodeToBytes (Unwrap env)")
  case (Pair rawEnvelope err)
  with assms show ?thesis
    by (cases err; cases rawEnvelope) (simp_all add: SaveEnvelope_def)
qed

theorem SaveEnvelope_encode_failure_witness:
  "snd (ex_encode (Unwrap ((ex_env 100 1)\<lparr>Unwrap := []\<rparr>))) \<noteq> None
   \<and> fst (SaveEnvelope ex_encode 20 ex_store ((ex_env 100 1)\<lparr>Unwrap := []\<rparr>)) = Some (RlpError ''rlp: empty'')
   \<and> envelopes (snd (SaveEnvelope ex_encode 20 ex_store ((ex_env 100 1)\<lparr>Unwrap := []\<rparr>))) = envelopes ex_store
   \<and> archivedErrorsCounter (snd (SaveEnvelope ex_encode 20 ex_store ((ex_env 100 1)\<lparr>Unwrap := []\<rparr>))) = archivedErrorsCounter ex_store + 1"
proof -
  have h: "snd (ex_encode (Unwrap ((ex_env 100 1)\<lparr>Unwrap := []\<rparr>))) = Some (RlpError ''rlp: empty'')"
    by (simp add: ex_encode_def)
  from h have "fst (ex_encode (Unwrap ((ex_env 100 1)\<lparr>Unwrap := []\<rparr>))) = None
      \<or> snd (ex_encode (Unwrap ((ex_env 100 1)\<lparr>Unwrap := []\<rparr>))) \<noteq> None" by simp
  from SaveEnvelope_encode_failure [of ex_encode "(ex_env 100 1)\<lparr>Unwrap := []\<rparr>" 20 ex_store] this h show ?thesis
    by simp
qed

subsection \<open>BuildIterator\<close>

lemma BuildIterator_Inr:
  assumes "BuildIterator s q = Inr rows"
  shows "0 \<le> limit q"
    and "rows = take (nat (limit q)) (map (\<lambda>r. (id_col r, data_col r))
                  (select_desc (\<lambda>r. where_range q r \<and> where_filter q r) (envelopes s)))"
  using assms by (auto simp: BuildIterator_def split: option.splits fault.splits if_splits)

lemma BuildIterator_no_fault:
  assumes "fault s = None" and "0 \<le> limit q"
  shows "BuildIterator s q = Inr (take (nat (limit q)) (map (\<lambda>r. (id_col r, data_col r))
                  (select_desc (\<lambda>r. where_range q r \<and> where_filter q r) (envelopes s))))"
  using assms by (simp add: BuildIterator_def)

lemma set_select_desc: "set (select_desc P rows) = {r \<in> set rows. P r}"
  by (auto simp: select_desc_def)

lemma length_select_desc: "length (select_desc P rows) \<le> length rows"
  by (simp add: select_desc_def)

lemma select_desc_sorted:
  assumes "distinct (map id_col rows)"
  shows "sorted_wrt (\<lambda>a b. id_col a > id_col b) (select_desc P rows)"
proof -
  let ?ys = "sort_key id_col (filter P rows)"
  have d: "distinct (map id_col (filter P rows))"
    using assms by (rule distinct_map_filter)
  then have "distinct (map id_col ?ys)"
    by (simp add: distinct_map)
  moreover have "sorted (map id_col ?ys)"
    by (rule sorted_sort_key)
  ultimately have "sorted_wrt (<) (map id_col ?ys)"
    by (simp add: strict_sorted_iff)
  then have "sorted_wrt (\<lambda>a b. id_col a < id_col b) ?ys"
    by (simp add: sorted_wrt_map)
  then show ?thesis
    by (simp add: select_desc_def sorted_wrt_rev)
qed

lemma in_rows_D:
  assumes "BuildIterator s q = Inr rows" and "(k, d) \<in> set rows"
  shows "\<exists>r\<in>set (envelopes s). id_col r = k \<and> data_col r = d \<and> where_range q r \<and> where_filter q r"
proof -
  let ?sel = "select_desc (\<lambda>r. where_range q r \<and> where_filter q r) (envelopes s)"
  let ?all = "map (\<lambda>r. (id_col r, data_col r)) ?sel"
  have "rows = take (nat (limit q)) ?all"
    by (rule BuildIterator_Inr(2) [OF assms(1)])
  then have "set rows \<subseteq> set ?all"
    using set_take_subset [of "nat (limit q)" ?all] by simp
  with assms(2) have "(k, d) \<in> set ?all"
    by blast
  then obtain r where r: "r \<in> set ?sel" and kd: "(k, d) = (id_col r, data_col r)"
    unfolding set_map by (rule imageE)
  from r have "r \<in> set (envelopes s)" "where_range q r" "where_filter q r"
    unfolding set_select_desc by simp_all
  with kd show ?thesis
    by blast
qed

lemma in_rows_range:
  assumes "BuildIterator s q = Inr rows" and "(k, d) \<in> set rows"
  shows "start q \<le> k" and "cursor q \<noteq> [] \<Longrightarrow> k < cursor q" and "cursor q = [] \<Longrightarrow> k \<le> end_q q"
proof -
  from in_rows_D [OF assms] obtain r where r: "id_col r = k" "where_range q r"
    by blast
  from r show "start q \<le> k"
    by (simp add: where_range_def split: if_splits)
  from r show "k < cursor q" if "cursor q \<noteq> []"
    using that by (simp add: where_range_def)
  from r show "k \<le> end_q q" if "cursor q = []"
    using that by (simp add: where_range_def)
qed

text \<open>
  C3. The range of the scan. Every row the iterator yields has its key in
  \<open>[start, cursor)\<close> when the query has a cursor, so the row at the cursor key is
  never yielded, and in \<open>[start, end]\<close> when it has none. The range is covered:
  when \<open>limit\<close> is at least the number of stored rows, a stored row that passes
  the topic or bloom predicate is yielded exactly when its key is in that range,
  both bounds of \<open>[start, end]\<close> included.
\<close>

theorem BuildIterator_range:
  assumes "BuildIterator s q = Inr rows"
  shows "(cursor q \<noteq> [] \<longrightarrow>
            (\<forall>(k, d)\<in>set rows. start q \<le> k \<and> k < cursor q) \<and> cursor q \<notin> fst ` set rows)
         \<and> (cursor q = [] \<longrightarrow> (\<forall>(k, d)\<in>set rows. start q \<le> k \<and> k \<le> end_q q))
         \<and> (length (envelopes s) \<le> nat (limit q) \<longrightarrow>
              (\<forall>r\<in>set (envelopes s). where_filter q r \<longrightarrow>
                 ((id_col r, data_col r) \<in> set rows \<longleftrightarrow>
                    (if cursor q \<noteq> [] then start q \<le> id_col r \<and> id_col r < cursor q
                     else start q \<le> id_col r \<and> id_col r \<le> end_q q))))"
proof -
  note rg = in_rows_range [OF assms]
  have a: "\<forall>(k, d)\<in>set rows. start q \<le> k \<and> k < cursor q" if "cursor q \<noteq> []"
    using rg(1) rg(2) [OF _ that] by auto
  have a': "cursor q \<notin> fst ` set rows" if "cursor q \<noteq> []"
  proof
    assume "cursor q \<in> fst ` set rows"
    then obtain d where "(cursor q, d) \<in> set rows"
      by force
    from rg(2) [OF this that] show False
      by simp
  qed
  have b: "\<forall>(k, d)\<in>set rows. start q \<le> k \<and> k \<le> end_q q" if "cursor q = []"
    using rg(1) rg(3) [OF _ that] by auto
  have c: "(id_col r, data_col r) \<in> set rows \<longleftrightarrow>
     (if cursor q \<noteq> [] then start q \<le> id_col r \<and> id_col r < cursor q
      else start q \<le> id_col r \<and> id_col r \<le> end_q q)"
    if big: "length (envelopes s) \<le> nat (limit q)" and r: "r \<in> set (envelopes s)"
      and f: "where_filter q r" for r
  proof -
    let ?sel = "select_desc (\<lambda>r. where_range q r \<and> where_filter q r) (envelopes s)"
    have "length ?sel \<le> nat (limit q)"
      using length_select_desc [of "\<lambda>r. where_range q r \<and> where_filter q r" "envelopes s"] big by simp
    then have rows: "rows = map (\<lambda>r. (id_col r, data_col r)) ?sel"
      using BuildIterator_Inr(2) [OF assms] by simp
    have "(id_col r, data_col r) \<in> set rows \<longleftrightarrow> where_range q r"
    proof
      assume "(id_col r, data_col r) \<in> set rows"
      then obtain r' where "id_col r' = id_col r" "where_range q r'"
        using in_rows_D [OF assms] by blast
      then show "where_range q r"
        by (auto simp: where_range_def split: if_splits)
    next
      assume "where_range q r"
      with r f have "r \<in> set ?sel"
        by (simp add: set_select_desc)
      then show "(id_col r, data_col r) \<in> set rows"
        unfolding rows by force
    qed
    then show ?thesis
      by (simp add: where_range_def)
  qed
  show ?thesis
  proof (intro conjI)
    show "cursor q \<noteq> [] \<longrightarrow>
            (\<forall>(k, d)\<in>set rows. start q \<le> k \<and> k < cursor q) \<and> cursor q \<notin> fst ` set rows"
      using a a' by simp
    show "cursor q = [] \<longrightarrow> (\<forall>(k, d)\<in>set rows. start q \<le> k \<and> k \<le> end_q q)"
      using b by simp
    show "length (envelopes s) \<le> nat (limit q) \<longrightarrow>
              (\<forall>r\<in>set (envelopes s). where_filter q r \<longrightarrow>
                 ((id_col r, data_col r) \<in> set rows \<longleftrightarrow>
                    (if cursor q \<noteq> [] then start q \<le> id_col r \<and> id_col r < cursor q
                     else start q \<le> id_col r \<and> id_col r \<le> end_q q)))"
      using c by (intro impI ballI) 
  qed
qed

theorem BuildIterator_range_witness:
  "BuildIterator ex_store ((ex_query 2)\<lparr>cursor := envelope_key (ex_env 200 2)\<rparr>) =
     Inr [(envelope_key (ex_env 100 1), [1, 2, 3])]
   \<and> cursor ((ex_query 2)\<lparr>cursor := envelope_key (ex_env 200 2)\<rparr>) \<noteq> []
   \<and> envelope_key (ex_env 200 2) \<notin> fst ` set [(envelope_key (ex_env 100 1), [1, 2, 3 :: byte])]
   \<and> BuildIterator ex_store (ex_query 5) =
     Inr [(envelope_key (ex_env 300 3), [1, 2, 3]), (envelope_key (ex_env 200 2), [1, 2, 3]),
          (envelope_key (ex_env 100 1), [1, 2, 3])]
   \<and> cursor (ex_query 5) = []
   \<and> length (envelopes ex_store) \<le> nat (limit (ex_query 5))
   \<and> start (ex_query 5) \<le> envelope_key (ex_env 300 3)
   \<and> envelope_key (ex_env 300 3) \<le> end_q (ex_query 5)"
proof -
  let ?q2 = "(ex_query 2)\<lparr>cursor := envelope_key (ex_env 200 2)\<rparr>"
  have c2: "cursor ?q2 \<noteq> []"
    by (simp add: envelope_key_def NewDBKey_def PutUint32_def)
  have c2': "cursor ?q2 = envelope_key (ex_env 200 2)"
    by simp
  have c1: "cursor (ex_query 5) = []"
    by (simp add: ex_query_def)
  have big: "length (envelopes ex_store) \<le> nat (limit (ex_query 5))"
    by code_simp
  from BuildIterator_range [OF ex_page_second] c2
  have a: "envelope_key (ex_env 200 2) \<notin> fst ` set [(envelope_key (ex_env 100 1), [1, 2, 3 :: byte])]"
    unfolding c2' by blast
  from BuildIterator_range [OF ex_page_all] c1
  have "\<forall>(k, d)\<in>set [(envelope_key (ex_env 300 3), [1, 2, 3 :: byte]), (envelope_key (ex_env 200 2), [1, 2, 3]),
          (envelope_key (ex_env 100 1), [1, 2, 3])]. start (ex_query 5) \<le> k \<and> k \<le> end_q (ex_query 5)"
    by blast
  then have b: "start (ex_query 5) \<le> envelope_key (ex_env 300 3)"
    "envelope_key (ex_env 300 3) \<le> end_q (ex_query 5)"
    by simp_all
  show ?thesis
    by (intro conjI ex_page_second c2 a ex_page_all c1 big b)
qed

text \<open>
  C4. Order and limit. On a table that respects the primary key, the rows of the
  iterator come in strictly descending order of their keys, there are at most
  \<open>limit\<close> of them, and each is a stored row whose key lies in the requested
  range. Descending keys put the most recently sent first: of two rows of the
  iterator, the later one was not sent after the earlier one.
\<close>

theorem BuildIterator_order_limit:
  assumes "BuildIterator s q = Inr rows" and "pk_unique s"
  shows "sorted_wrt (\<lambda>a b. fst a > fst b) rows
         \<and> int (length rows) \<le> limit q
         \<and> (\<forall>(k, d)\<in>set rows.
               (\<exists>r\<in>set (envelopes s). id_col r = k \<and> data_col r = d)
               \<and> start q \<le> k
               \<and> (if cursor q \<noteq> [] then k < cursor q else k \<le> end_q q))
         \<and> (\<forall>i j. i < j \<and> j < length rows \<longrightarrow>
               (\<forall>t1 tp1 h1 t2 tp2 h2.
                  fst (rows ! i) = NewDBKey t1 tp1 h1 \<and> fst (rows ! j) = NewDBKey t2 tp2 h2
                  \<longrightarrow> t2 \<le> t1))"
proof -
  let ?sel = "select_desc (\<lambda>r. where_range q r \<and> where_filter q r) (envelopes s)"
  note rows = BuildIterator_Inr(2) [OF assms(1)]
  have "sorted_wrt (\<lambda>a b. id_col a > id_col b) ?sel"
    using assms(2) unfolding pk_unique_def by (rule select_desc_sorted)
  then have "sorted_wrt (\<lambda>a b. fst a > fst b) (map (\<lambda>r. (id_col r, data_col r)) ?sel)"
    by (simp add: sorted_wrt_map)
  then have 1: "sorted_wrt (\<lambda>a b. fst a > fst b) rows"
    by (subst rows) (rule sorted_wrt_take)
  have 2: "int (length rows) \<le> limit q"
    using BuildIterator_Inr(1) [OF assms(1)] by (subst rows) simp
  have 3: "(\<exists>r\<in>set (envelopes s). id_col r = k \<and> data_col r = d)
               \<and> start q \<le> k
               \<and> (if cursor q \<noteq> [] then k < cursor q else k \<le> end_q q)"
    if "(k, d) \<in> set rows" for k d
    using in_rows_D [OF assms(1) that] in_rows_range [OF assms(1) that] by auto
  have 4: "\<forall>(k, d)\<in>set rows.
               (\<exists>r\<in>set (envelopes s). id_col r = k \<and> data_col r = d)
               \<and> start q \<le> k
               \<and> (if cursor q \<noteq> [] then k < cursor q else k \<le> end_q q)"
  proof (rule ballI)
    fix x
    assume x: "x \<in> set rows"
    obtain k d where kd: "x = (k, d)"
      by (cases x)
    show "case x of (k, d) \<Rightarrow>
               (\<exists>r\<in>set (envelopes s). id_col r = k \<and> data_col r = d)
               \<and> start q \<le> k
               \<and> (if cursor q \<noteq> [] then k < cursor q else k \<le> end_q q)"
      unfolding kd prod.case by (rule 3 [OF x [unfolded kd]])
  qed
  have 5: "t2 \<le> t1"
    if "i < j" "j < length rows" "fst (rows ! i) = NewDBKey t1 tp1 h1" "fst (rows ! j) = NewDBKey t2 tp2 h2"
    for i j t1 tp1 h1 t2 tp2 h2
  proof -
    from 1 that(1,2) have "fst (rows ! j) < fst (rows ! i)"
      by (simp add: sorted_wrt_iff_nth_less)
    then show ?thesis
      unfolding that(3,4) by (rule NewDBKey_less_sent)
  qed
  from 5 have all5: "\<forall>i j. i < j \<and> j < length rows \<longrightarrow>
               (\<forall>t1 tp1 h1 t2 tp2 h2.
                  fst (rows ! i) = NewDBKey t1 tp1 h1 \<and> fst (rows ! j) = NewDBKey t2 tp2 h2
                  \<longrightarrow> t2 \<le> t1)"
    by blast
  from 1 2 4 all5 show ?thesis
    by (intro conjI)
qed


theorem BuildIterator_order_limit_witness:
  "BuildIterator ex_store (ex_query 2) =
     Inr [(envelope_key (ex_env 300 3), [1, 2, 3]), (envelope_key (ex_env 200 2), [1, 2, 3])]
   \<and> pk_unique ex_store
   \<and> sorted_wrt (\<lambda>a b. fst a > fst b)
        [(envelope_key (ex_env 300 3), [1, 2, 3 :: byte]), (envelope_key (ex_env 200 2), [1, 2, 3])]
   \<and> int (length [(envelope_key (ex_env 300 3), [1, 2, 3 :: byte]), (envelope_key (ex_env 200 2), [1, 2, 3])])
        \<le> limit (ex_query 2)"
proof -
  have pk: "pk_unique ex_store"
    by code_simp
  note c = BuildIterator_order_limit [OF ex_page_first pk]
  show ?thesis
    by (intro conjI ex_page_first pk c [THEN conjunct1] c [THEN conjunct2, THEN conjunct1])
qed

text \<open>The bit strings of the bloom column and of the query, byte by byte.\<close>

lemma bit_literal_Sprintf: "bit_literal (Sprintf_08b n) = byte_bits n"
  by (simp add: bit_literal_def Sprintf_08b_def byte_bits_def)

lemma foldl_append_concat: "foldl (\<lambda>val n. val @ f n) a xs = a @ concat (map f xs)"
  by (induction xs arbitrary: a) simp_all

lemma toBitString_concat: "toBitString bs = concat (map Sprintf_08b bs)"
  by (simp add: toBitString_def foldl_append_concat)

lemma bit_literal_append: "bit_literal (a @ b) = bit_literal a @ bit_literal b"
  by (simp add: bit_literal_def)

lemma bit_literal_toBitString: "bit_literal (toBitString bs) = concat (map byte_bits bs)"
  unfolding toBitString_concat
  by (induction bs) (simp_all add: bit_literal_append bit_literal_Sprintf, simp add: bit_literal_def)

lemma length_byte_bits: "length (byte_bits n) = 8"
  by (simp add: byte_bits_def)

lemma length_concat_byte_bits: "length (concat (map byte_bits bs)) = 8 * length bs"
  by (induction bs) (simp_all add: length_byte_bits)

lemma bloom_bits_64: "length bs = 64 \<Longrightarrow> bloom_bits bs = concat (map byte_bits bs)"
  by (simp add: bloom_bits_def cast_bit_def bit_literal_toBitString length_concat_byte_bits)

lemma length_bloom_bits: "length (bloom_bits bs) = 512"
  by (simp add: bloom_bits_def cast_bit_def)

lemma byte_bits_and: "bit_and (byte_bits a) (byte_bits b) = byte_bits (and a b)"
  by (simp add: bit_and_def byte_bits_def bit_and_iff)

lemma bit_and_append:
  "length a = length b \<Longrightarrow> bit_and (a @ c) (b @ d) = bit_and a b @ bit_and c d"
  by (simp add: bit_and_def)

lemma concat_byte_bits_and:
  "length xs = length ys \<Longrightarrow>
   bit_and (concat (map byte_bits xs)) (concat (map byte_bits ys)) = concat (map byte_bits (map2 and xs ys))"
proof (induction xs ys rule: list_induct2)
  case Nil
  then show ?case by (simp add: bit_and_def)
next
  case (Cons x xs y ys)
  then show ?case
    by (simp add: bit_and_append length_byte_bits byte_bits_and)
qed

lemma byte_bits_inj: "byte_bits a = byte_bits b \<Longrightarrow> a = b"
proof (rule bit_word_eqI)
  fix n
  assume eq: "byte_bits a = byte_bits b" and n: "n < LENGTH(8)"
  then have "n \<in> {0, 1, 2, 3, 4, 5, 6, 7}"
    by auto
  with eq show "bit a n \<longleftrightarrow> bit b n"
    by (auto simp: byte_bits_def)
qed

lemma concat_byte_bits_inj:
  "length xs = length ys \<Longrightarrow> concat (map byte_bits xs) = concat (map byte_bits ys) \<Longrightarrow> xs = ys"
proof (induction xs ys rule: list_induct2)
  case Nil
  then show ?case by simp
next
  case (Cons x xs y ys)
  from Cons.prems have "byte_bits x = byte_bits y \<and> concat (map byte_bits xs) = concat (map byte_bits ys)"
    by (simp add: length_byte_bits)
  with Cons.IH show ?case
    by (simp add: byte_bits_inj)
qed

lemma bloom_match_bytes:
  assumes "length eb = 64" and "length qb = 64"
  shows "bit_and (bloom_bits eb) (bloom_bits qb) = bloom_bits eb \<longleftrightarrow> map2 and eb qb = eb"
proof -
  let ?m = "map2 and eb qb"
  have len: "length ?m = length eb"
    using assms by simp
  have a: "bit_and (bloom_bits eb) (bloom_bits qb) = concat (map byte_bits ?m)"
    using assms by (simp only: bloom_bits_64 concat_byte_bits_and)
  have b: "bloom_bits eb = concat (map byte_bits eb)"
    using assms by (simp only: bloom_bits_64)
  have "concat (map byte_bits ?m) = concat (map byte_bits eb) \<longleftrightarrow> ?m = eb"
  proof
    assume "concat (map byte_bits ?m) = concat (map byte_bits eb)"
    with len show "?m = eb"
      by (rule concat_byte_bits_inj)
  next
    assume "?m = eb"
    then show "concat (map byte_bits ?m) = concat (map byte_bits eb)"
      by (rule arg_cong [where f = "\<lambda>l. concat (map byte_bits l)"])
  qed
  then show ?thesis
    unfolding a unfolding b .
qed

lemma where_range_iff:
  "where_range q r \<longleftrightarrow>
     start q \<le> id_col r \<and> (if cursor q \<noteq> [] then id_col r < cursor q else id_col r \<le> end_q q)"
  by (simp add: where_range_def)

lemma where_filter_iff:
  "where_filter q r \<longleftrightarrow>
     (if topics q \<noteq> [] then topic_col r \<in> set (topics q)
      else bit_and (bloom_col r) (bloom_bits (bloom q)) = bloom_col r)"
  by (simp add: where_filter_def)

lemma yielded_row_predicate:
  assumes "BuildIterator s q = Inr rows" and "(k, d) \<in> set rows"
  shows "\<exists>r\<in>set (envelopes s). id_col r = k \<and> data_col r = d
           \<and> start q \<le> k \<and> (if cursor q \<noteq> [] then k < cursor q else k \<le> end_q q)
           \<and> (topics q \<noteq> [] \<longrightarrow> topic_col r \<in> set (topics q))
           \<and> (topics q = [] \<longrightarrow>
                 bit_and (bloom_col r) (bloom_bits (bloom q)) = bloom_col r
                 \<and> (\<forall>eb. bloom_col r = bloom_bits eb \<and> length eb = 64 \<and> length (bloom q) = 64
                       \<longrightarrow> map2 and eb (bloom q) = eb))"
proof -
  from in_rows_D [OF assms] obtain r where r: "r \<in> set (envelopes s)" "id_col r = k" "data_col r = d"
    "where_range q r" "where_filter q r"
    by blast
  note rg = in_rows_range [OF assms]
  have 1: "start q \<le> k \<and> (if cursor q \<noteq> [] then k < cursor q else k \<le> end_q q)"
    using rg by simp
  have 2: "topic_col r \<in> set (topics q)" if "topics q \<noteq> []"
    using r(5) that by (simp add: where_filter_def)
  have 3: "bit_and (bloom_col r) (bloom_bits (bloom q)) = bloom_col r" if "topics q = []"
    using r(5) that by (simp add: where_filter_def)
  have 4: "map2 and eb (bloom q) = eb"
    if "topics q = []" "bloom_col r = bloom_bits eb" "length eb = 64" "length (bloom q) = 64" for eb
    using 3 [OF that(1)] bloom_match_bytes [OF that(3,4)] that(2) by simp
  from r(1,2,3) 1 2 3 4 show ?thesis
    by blast
qed

lemma matching_row_yielded:
  assumes "BuildIterator s q = Inr rows" and "length (envelopes s) \<le> nat (limit q)"
    and "r \<in> set (envelopes s)" and "where_range q r" and "where_filter q r"
  shows "(id_col r, data_col r) \<in> set rows"
proof -
  let ?sel = "select_desc (\<lambda>r. where_range q r \<and> where_filter q r) (envelopes s)"
  have "length ?sel \<le> nat (limit q)"
    using length_select_desc [of "\<lambda>r. where_range q r \<and> where_filter q r" "envelopes s"] assms(2) by simp
  then have rows: "rows = map (\<lambda>r. (id_col r, data_col r)) ?sel"
    using BuildIterator_Inr(2) [OF assms(1)] by simp
  have "r \<in> set ?sel"
    using assms(3,4,5) by (simp add: set_select_desc)
  then show ?thesis
    unfolding rows by force
qed

text \<open>
  C5. The predicate. The iterator is the list of the stored rows, in descending
  order of their keys and cut at \<open>limit\<close>, that are in the key range and pass one
  predicate, chosen by the query: when it has topics, the topic of the row is
  among them (the bloom of the query is not looked at); otherwise the containment
  test on 512-bit strings, stored bloom \<^verbatim>\<open>&\<close> query bloom equals stored bloom.
  So every row yielded passes the chosen predicate and is in range, and, when
  \<open>limit\<close> is at least the number of stored rows, every stored row in range that
  passes it is yielded. For 64-byte blooms the test is the one on bytes, the
  bloom of the envelope AND the bloom of the query being the bloom of the
  envelope, in both directions: no row that passes it is left out.
\<close>

theorem BuildIterator_predicate:
  assumes "BuildIterator s q = Inr rows"
  shows "rows = take (nat (limit q)) (map (\<lambda>r. (id_col r, data_col r))
           (rev (sort_key id_col (filter
              (\<lambda>r. (start q \<le> id_col r
                      \<and> (if cursor q \<noteq> [] then id_col r < cursor q else id_col r \<le> end_q q))
                   \<and> (if topics q \<noteq> [] then topic_col r \<in> set (topics q)
                      else bit_and (bloom_col r) (bloom_bits (bloom q)) = bloom_col r))
              (envelopes s)))))
         \<and> (\<forall>(k, d)\<in>set rows. \<exists>r\<in>set (envelopes s). id_col r = k \<and> data_col r = d
               \<and> start q \<le> k \<and> (if cursor q \<noteq> [] then k < cursor q else k \<le> end_q q)
               \<and> (topics q \<noteq> [] \<longrightarrow> topic_col r \<in> set (topics q))
               \<and> (topics q = [] \<longrightarrow>
                     bit_and (bloom_col r) (bloom_bits (bloom q)) = bloom_col r
                     \<and> (\<forall>eb. bloom_col r = bloom_bits eb \<and> length eb = 64 \<and> length (bloom q) = 64
                           \<longrightarrow> map2 and eb (bloom q) = eb)))
         \<and> (length (envelopes s) \<le> nat (limit q) \<longrightarrow>
               (\<forall>r\<in>set (envelopes s).
                  start q \<le> id_col r
                  \<and> (if cursor q \<noteq> [] then id_col r < cursor q else id_col r \<le> end_q q)
                  \<and> (if topics q \<noteq> [] then topic_col r \<in> set (topics q)
                     else bit_and (bloom_col r) (bloom_bits (bloom q)) = bloom_col r)
                  \<longrightarrow> (id_col r, data_col r) \<in> set rows))
         \<and> (length (envelopes s) \<le> nat (limit q) \<and> topics q = [] \<and> length (bloom q) = 64 \<longrightarrow>
               (\<forall>r\<in>set (envelopes s). \<forall>eb.
                  bloom_col r = bloom_bits eb \<and> length eb = 64
                  \<and> start q \<le> id_col r
                  \<and> (if cursor q \<noteq> [] then id_col r < cursor q else id_col r \<le> end_q q)
                  \<and> map2 and eb (bloom q) = eb
                  \<longrightarrow> (id_col r, data_col r) \<in> set rows))"
proof -
  have A: "rows = take (nat (limit q)) (map (\<lambda>r. (id_col r, data_col r))
           (rev (sort_key id_col (filter
              (\<lambda>r. (start q \<le> id_col r
                      \<and> (if cursor q \<noteq> [] then id_col r < cursor q else id_col r \<le> end_q q))
                   \<and> (if topics q \<noteq> [] then topic_col r \<in> set (topics q)
                      else bit_and (bloom_col r) (bloom_bits (bloom q)) = bloom_col r))
              (envelopes s)))))"
    using BuildIterator_Inr(2) [OF assms]
    by (simp only: select_desc_def where_range_iff where_filter_iff)
  have B: "\<forall>(k, d)\<in>set rows. \<exists>r\<in>set (envelopes s). id_col r = k \<and> data_col r = d
               \<and> start q \<le> k \<and> (if cursor q \<noteq> [] then k < cursor q else k \<le> end_q q)
               \<and> (topics q \<noteq> [] \<longrightarrow> topic_col r \<in> set (topics q))
               \<and> (topics q = [] \<longrightarrow>
                     bit_and (bloom_col r) (bloom_bits (bloom q)) = bloom_col r
                     \<and> (\<forall>eb. bloom_col r = bloom_bits eb \<and> length eb = 64 \<and> length (bloom q) = 64
                           \<longrightarrow> map2 and eb (bloom q) = eb))"
  proof (rule ballI)
    fix x
    assume x: "x \<in> set rows"
    obtain k d where kd: "x = (k, d)"
      by (cases x)
    show "case x of (k, d) \<Rightarrow> \<exists>r\<in>set (envelopes s). id_col r = k \<and> data_col r = d
               \<and> start q \<le> k \<and> (if cursor q \<noteq> [] then k < cursor q else k \<le> end_q q)
               \<and> (topics q \<noteq> [] \<longrightarrow> topic_col r \<in> set (topics q))
               \<and> (topics q = [] \<longrightarrow>
                     bit_and (bloom_col r) (bloom_bits (bloom q)) = bloom_col r
                     \<and> (\<forall>eb. bloom_col r = bloom_bits eb \<and> length eb = 64 \<and> length (bloom q) = 64
                           \<longrightarrow> map2 and eb (bloom q) = eb))"
      unfolding kd prod.case by (rule yielded_row_predicate [OF assms x [unfolded kd]])
  qed
  have C: "(id_col r, data_col r) \<in> set rows"
    if "length (envelopes s) \<le> nat (limit q)" "r \<in> set (envelopes s)"
      "start q \<le> id_col r"
      "if cursor q \<noteq> [] then id_col r < cursor q else id_col r \<le> end_q q"
      "if topics q \<noteq> [] then topic_col r \<in> set (topics q)
       else bit_and (bloom_col r) (bloom_bits (bloom q)) = bloom_col r" for r
  proof (rule matching_row_yielded [OF assms that(1,2)])
    show "where_range q r"
      unfolding where_range_iff using that(3,4) by (rule conjI)
    show "where_filter q r"
      unfolding where_filter_iff by (rule that(5))
  qed
  have D: "(id_col r, data_col r) \<in> set rows"
    if "length (envelopes s) \<le> nat (limit q)" "topics q = []" "length (bloom q) = 64"
      "r \<in> set (envelopes s)" "bloom_col r = bloom_bits eb" "length eb = 64"
      "start q \<le> id_col r"
      "if cursor q \<noteq> [] then id_col r < cursor q else id_col r \<le> end_q q"
      "map2 and eb (bloom q) = eb" for r eb
  proof (rule C [OF that(1,4,7,8)])
    have "bit_and (bloom_col r) (bloom_bits (bloom q)) = bloom_col r"
      unfolding that(5) using bloom_match_bytes [OF that(6,3)] that(9) by simp
    then show "if topics q \<noteq> [] then topic_col r \<in> set (topics q)
       else bit_and (bloom_col r) (bloom_bits (bloom q)) = bloom_col r"
      using that(2) by simp
  qed
  from C have C': "length (envelopes s) \<le> nat (limit q) \<longrightarrow>
               (\<forall>r\<in>set (envelopes s).
                  start q \<le> id_col r
                  \<and> (if cursor q \<noteq> [] then id_col r < cursor q else id_col r \<le> end_q q)
                  \<and> (if topics q \<noteq> [] then topic_col r \<in> set (topics q)
                     else bit_and (bloom_col r) (bloom_bits (bloom q)) = bloom_col r)
                  \<longrightarrow> (id_col r, data_col r) \<in> set rows)"
    by blast
  from D have D': "length (envelopes s) \<le> nat (limit q) \<and> topics q = [] \<and> length (bloom q) = 64 \<longrightarrow>
               (\<forall>r\<in>set (envelopes s). \<forall>eb.
                  bloom_col r = bloom_bits eb \<and> length eb = 64
                  \<and> start q \<le> id_col r
                  \<and> (if cursor q \<noteq> [] then id_col r < cursor q else id_col r \<le> end_q q)
                  \<and> map2 and eb (bloom q) = eb
                  \<longrightarrow> (id_col r, data_col r) \<in> set rows)"
    by blast
  show ?thesis
    by (intro conjI A B C' D')
qed


theorem BuildIterator_predicate_witness:
  "BuildIterator ex_store (ex_query 2) =
     Inr [(envelope_key (ex_env 300 3), [1, 2, 3]), (envelope_key (ex_env 200 2), [1, 2, 3])]
   \<and> topics (ex_query 2) = []
   \<and> (\<exists>r\<in>set (envelopes ex_store). id_col r = envelope_key (ex_env 300 3)
         \<and> bit_and (bloom_col r) (bloom_bits (bloom (ex_query 2))) = bloom_col r)
   \<and> BuildIterator ex_store ((ex_query 5)\<lparr>topics := [[65, 65, 65, 65]], bloom := []\<rparr>) =
     Inr [(envelope_key (ex_env 300 3), [1, 2, 3]), (envelope_key (ex_env 200 2), [1, 2, 3]),
          (envelope_key (ex_env 100 1), [1, 2, 3])]
   \<and> ex_row 300 3 \<in> set (envelopes ex_store)
   \<and> topics ((ex_query 5)\<lparr>topics := [[65, 65, 65, 65]], bloom := []\<rparr>) \<noteq> []
   \<and> topic_col (ex_row 300 3) \<in> set (topics ((ex_query 5)\<lparr>topics := [[65, 65, 65, 65]], bloom := []\<rparr>))
   \<and> bit_and (bloom_col (ex_row 300 3))
         (bloom_bits (bloom ((ex_query 5)\<lparr>topics := [[65, 65, 65, 65]], bloom := []\<rparr>)))
        \<noteq> bloom_col (ex_row 300 3)
   \<and> (id_col (ex_row 300 3), data_col (ex_row 300 3))
        \<in> set [(envelope_key (ex_env 300 3), [1, 2, 3]), (envelope_key (ex_env 200 2), [1, 2, 3]),
                (envelope_key (ex_env 100 1), [1, 2, 3])]"
proof -
  let ?qt = "(ex_query 5)\<lparr>topics := [[65, 65, 65, 65]], bloom := []\<rparr>"
  let ?r = "ex_row 300 3"
  have t1: "topics (ex_query 2) = []"
    by (simp add: ex_query_def)
  have m1: "(envelope_key (ex_env 300 3), [1, 2, 3]) \<in>
      set [(envelope_key (ex_env 300 3), [1, 2, 3 :: byte]), (envelope_key (ex_env 200 2), [1, 2, 3])]"
    by simp
  note c1 = BuildIterator_predicate [OF ex_page_first]
  note sound = bspec [OF c1 [THEN conjunct2, THEN conjunct1] m1, unfolded prod.case]
  from sound obtain r where r: "r \<in> set (envelopes ex_store)" "id_col r = envelope_key (ex_env 300 3)"
    "topics (ex_query 2) = [] \<longrightarrow> bit_and (bloom_col r) (bloom_bits (bloom (ex_query 2))) = bloom_col r
       \<and> (\<forall>eb. bloom_col r = bloom_bits eb \<and> length eb = 64 \<and> length (bloom (ex_query 2)) = 64
             \<longrightarrow> map2 and eb (bloom (ex_query 2)) = eb)"
    by (elim bexE conjE)
  from r(3) t1 have "bit_and (bloom_col r) (bloom_bits (bloom (ex_query 2))) = bloom_col r"
    by (elim impE conjE)
  with r(1,2) have a: "\<exists>r\<in>set (envelopes ex_store). id_col r = envelope_key (ex_env 300 3)
         \<and> bit_and (bloom_col r) (bloom_bits (bloom (ex_query 2))) = bloom_col r"
    by (intro bexI [of _ r] conjI)
  have rin: "?r \<in> set (envelopes ex_store)"
    unfolding ex_store_rows by simp
  have t2: "topics ?qt \<noteq> []"
    by simp
  have t3: "topic_col ?r \<in> set (topics ?qt)"
    by (simp add: ex_row_def)
  have mismatch: "bit_and (bloom_col ?r) (bloom_bits (bloom ?qt)) \<noteq> bloom_col ?r"
    using ex_bloom_mismatch by simp
  have big: "length (envelopes ex_store) \<le> nat (limit ?qt)"
    unfolding ex_store_rows by (simp add: ex_query_def)
  have rng1: "start ?qt \<le> id_col ?r"
    using ex_row_300_range(1) by simp
  have rng2: "if cursor ?qt \<noteq> [] then id_col ?r < cursor ?qt else id_col ?r \<le> end_q ?qt"
    using ex_row_300_range(2) by (simp add: ex_query_def)
  have prd: "if topics ?qt \<noteq> [] then topic_col ?r \<in> set (topics ?qt)
       else bit_and (bloom_col ?r) (bloom_bits (bloom ?qt)) = bloom_col ?r"
    unfolding if_P [OF t2] by (rule t3)
  note c2 = BuildIterator_predicate [OF ex_page_topics_only]
  have b: "(id_col ?r, data_col ?r) \<in> set [(envelope_key (ex_env 300 3), [1, 2, 3]), (envelope_key (ex_env 200 2), [1, 2, 3]),
                (envelope_key (ex_env 100 1), [1, 2, 3])]"
    by (rule c2 [THEN conjunct2, THEN conjunct2, THEN conjunct1, rule_format, OF big rin])
      (intro conjI rng1 rng2 prd)
  show ?thesis
    by (intro conjI ex_page_first t1 a ex_page_topics_only rin t2 t3 mismatch b)
qed


text \<open>
  C8, as the claim states it, fails: a query with \<open>limit = 0\<close> is not rejected
  but run, and gives an empty iterator.
\<close>

theorem BuildIterator_limit_zero_counterexample:
  "limit (ex_query 0) \<le> 0 \<and> BuildIterator ex_store (ex_query 0) = Inr []"
  by code_simp

text \<open>
  C8, amended. \<^verbatim>\<open>BuildIterator\<close> does not validate the query. On a connection
  without fault a query with \<open>limit = 0\<close> gives an empty iterator and no error,
  and every query with \<open>0 \<le> limit\<close> gives an iterator, whatever its other
  fields. The only errors it returns are those of the backend: a fault of the
  connection, or PostgreSQL refusing a negative \<^verbatim>\<open>LIMIT\<close>.
\<close>

theorem BuildIterator_no_validation:
  "(fault s = None \<and> limit q = 0 \<longrightarrow> BuildIterator s q = Inr [])
   \<and> (fault s = None \<and> 0 \<le> limit q \<longrightarrow> (\<exists>rows. BuildIterator s q = Inr rows))
   \<and> (\<forall>e. BuildIterator s q = Inl e \<longrightarrow>
         (\<exists>m. e = SqlError m) \<and> (fault s \<noteq> None \<or> limit q < 0))"
  by (auto simp: BuildIterator_def split: option.splits fault.splits if_splits)

theorem BuildIterator_no_validation_witness:
  "fault ex_store = None \<and> limit (ex_query 0) = 0 \<and> 0 \<le> limit (ex_query 0)
   \<and> BuildIterator ex_store (ex_query 0) = Inr []
   \<and> BuildIterator ex_store (ex_query (-1)) = Inl (SqlError ''LIMIT must not be negative'')
   \<and> (\<exists>m. SqlError ''LIMIT must not be negative'' = SqlError m)
   \<and> limit (ex_query (-1)) < 0"
proof -
  have f: "fault ex_store = None" by code_simp
  have l: "limit (ex_query 0) = 0" "limit (ex_query (-1)) < 0" by (simp_all add: ex_query_def)
  have neg: "BuildIterator ex_store (ex_query (-1)) = Inl (SqlError ''LIMIT must not be negative'')"
    using f l(2) by (simp add: BuildIterator_def)
  from BuildIterator_no_validation [of ex_store "ex_query 0"]
    BuildIterator_no_validation [of ex_store "ex_query (-1)"] f l neg
  show ?thesis by simp
qed

subsection \<open>Pagination\<close>

lemma filter_less_desc:
  fixes f :: "'a \<Rightarrow> 'b::linorder"
  assumes "sorted_wrt (\<lambda>a b. f a > f b) xs" and "n < length xs"
  shows "filter (\<lambda>r. f r < f (xs ! n)) xs = drop (Suc n) xs"
  using assms
proof (induction xs arbitrary: n)
  case Nil
  then show ?case by simp
next
  case (Cons x xs)
  show ?case
  proof (cases n)
    case 0
    have "\<forall>y\<in>set xs. f y < f x"
      using Cons.prems(1) by simp
    then have "filter (\<lambda>r. f r < f x) xs = xs"
      by (simp add: filter_id_conv)
    with 0 show ?thesis by simp
  next
    case (Suc k)
    with Cons.prems have k: "k < length xs" and s: "sorted_wrt (\<lambda>a b. f a > f b) xs"
      by simp_all
    have "f (xs ! k) < f x"
      using Cons.prems(1) k by simp
    then have "\<not> f x < f (xs ! k)"
      by simp
    with Suc Cons.IH [OF s k] show ?thesis
      by simp
  qed
qed

lemma select_desc_filter:
  "select_desc (\<lambda>r. P r \<and> Q r) rows = filter Q (select_desc P rows)"
proof -
  have "filter Q (select_desc P rows) = rev (filter Q (sort_key id_col (filter P rows)))"
    by (simp only: select_desc_def rev_filter)
  also have "\<dots> = rev (sort_key id_col (filter Q (filter P rows)))"
    by (simp only: filter_sort)
  also have "\<dots> = rev (sort_key id_col (filter (\<lambda>r. P r \<and> Q r) rows))"
    by (simp only: filter_filter)
  finally show ?thesis
    by (simp only: select_desc_def)
qed

lemma next_page:
  assumes pk: "pk_unique s"
    and ne: "\<forall>r\<in>set (envelopes s). id_col r \<noteq> []"
    and L: "0 < L" "L \<le> length (scan_all s q)"
  shows "scan_all s (q\<lparr>cursor := fst (last (take L (scan_all s q)))\<rparr>) = drop L (scan_all s q)"
proof -
  let ?P = "\<lambda>r. where_range q r \<and> where_filter q r"
  let ?D = "select_desc ?P (envelopes s)"
  have len: "length ?D = length (scan_all s q)"
    by (simp add: scan_all_def)
  with L have n: "L - 1 < length ?D"
    by simp
  define c where "c = id_col (?D ! (L - 1))"
  have "take L (scan_all s q) \<noteq> []"
    using L by auto
  then have "last (take L (scan_all s q)) = take L (scan_all s q) ! (length (take L (scan_all s q)) - 1)"
    by (rule last_conv_nth)
  also have "\<dots> = scan_all s q ! (L - 1)"
    using L by simp
  also have "\<dots> = (id_col (?D ! (L - 1)), data_col (?D ! (L - 1)))"
    using n unfolding scan_all_def by simp
  finally have cur: "fst (last (take L (scan_all s q))) = c"
    by (simp add: c_def)
  let ?q' = "q\<lparr>cursor := c\<rparr>"
  have cin: "?D ! (L - 1) \<in> set ?D"
    using n by simp
  then have crow: "?D ! (L - 1) \<in> set (envelopes s)" and cP: "?P (?D ! (L - 1))"
    by (simp_all add: set_select_desc)
  have cne: "c \<noteq> []"
    using ne crow unfolding c_def by blast
  have cr: "where_range q (?D ! (L - 1))"
    using cP by simp
  have P': "(where_range ?q' r \<and> where_filter ?q' r) \<longleftrightarrow> (?P r \<and> id_col r < c)" for r
  proof -
    have f: "where_filter ?q' r = where_filter q r"
      by (simp add: where_filter_def)
    have r': "where_range ?q' r \<longleftrightarrow> start q \<le> id_col r \<and> id_col r < c"
      using cne by (simp add: where_range_def)
    have up: "where_range q r" if "start q \<le> id_col r" "id_col r < c"
      using cr that unfolding where_range_def c_def by (auto split: if_splits)
    have lo: "start q \<le> id_col r" if "where_range q r"
      using that by (simp add: where_range_def split: if_splits)
    show ?thesis
      unfolding f r' using up lo by blast
  qed
  have "select_desc (\<lambda>r. where_range ?q' r \<and> where_filter ?q' r) (envelopes s)
        = select_desc (\<lambda>r. ?P r \<and> id_col r < c) (envelopes s)"
    by (simp only: P')
  also have "\<dots> = filter (\<lambda>r. id_col r < c) ?D"
    by (rule select_desc_filter)
  also have "\<dots> = drop (Suc (L - 1)) ?D"
    unfolding c_def
  proof (rule filter_less_desc)
    show "sorted_wrt (\<lambda>a b. id_col b < id_col a) ?D"
      using pk unfolding pk_unique_def by (rule select_desc_sorted)
    show "L - 1 < length ?D"
      by (rule n)
  qed
  finally have "select_desc (\<lambda>r. where_range ?q' r \<and> where_filter ?q' r) (envelopes s) = drop L ?D"
    using L(1) by simp
  then show ?thesis
    unfolding cur by (simp add: scan_all_def drop_map)
qed

lemma length_scan_all: "length (scan_all s q) \<le> length (envelopes s)"
  by (simp add: scan_all_def length_select_desc)

lemma scan_all_limit: "scan_all s (q\<lparr>limit := n\<rparr>) = scan_all s q"
  by (simp add: scan_all_def where_range_def where_filter_def)

lemma scan_all_distinct: "pk_unique s \<Longrightarrow> distinct (map fst (scan_all s q))"
proof -
  assume "pk_unique s"
  then have "sorted_wrt (\<lambda>a b. id_col b < id_col a) (select_desc (\<lambda>r. where_range q r \<and> where_filter q r) (envelopes s))"
    unfolding pk_unique_def by (rule select_desc_sorted)
  then have "sorted_wrt (\<lambda>a b. b < a) (map fst (scan_all s q))"
    by (simp add: scan_all_def sorted_wrt_map)
  then have "sorted_wrt (<) (rev (map fst (scan_all s q)))"
    by (simp only: sorted_wrt_rev)
  then have "distinct (rev (map fst (scan_all s q)))"
    by (simp only: strict_sorted_iff)
  then show ?thesis
    by simp
qed

lemma query_pages_all:
  assumes pk: "pk_unique s"
    and ne: "\<forall>r\<in>set (envelopes s). id_col r \<noteq> []"
    and nf: "fault s = None"
  shows "0 < limit q \<Longrightarrow> length (scan_all s q) < fuel \<Longrightarrow> query_pages fuel s q = Some (Inr (scan_all s q))"
proof (induction fuel arbitrary: q)
  case 0
  then show ?case by simp
next
  case (Suc fuel)
  define L where "L = nat (limit q)"
  have L: "0 < L" "int L = limit q"
    using Suc.prems(1) by (simp_all add: L_def)
  let ?page = "take L (scan_all s q)"
  have page: "BuildIterator s q = Inr ?page"
    using BuildIterator_no_fault [OF nf, of q] Suc.prems(1) by (simp add: scan_all_def L_def)
  show ?case
  proof (cases "length (scan_all s q) < L")
    case True
    then have "?page = scan_all s q" "int (length ?page) < limit q"
      using L(2) by simp_all
    then show ?thesis
      by (simp add: page)
  next
    case False
    then have le: "L \<le> length (scan_all s q)"
      by simp
    then have full: "\<not> int (length ?page) < limit q" and nonempty: "?page \<noteq> []"
      using L by auto
    let ?q' = "q\<lparr>cursor := fst (last ?page)\<rparr>"
    have nxt: "scan_all s ?q' = drop L (scan_all s q)"
      using pk ne L(1) le by (rule next_page)
    have "length (scan_all s ?q') < fuel"
      unfolding nxt using Suc.prems(2) L(1) le by simp
    moreover have "0 < limit ?q'"
      using Suc.prems(1) by simp
    ultimately have "query_pages fuel s ?q' = Some (Inr (drop L (scan_all s q)))"
      using Suc.IH [of ?q'] nxt by simp
    then show ?thesis
      using full nonempty by (simp add: page)
  qed
qed

text \<open>
  C9. Pagination. On a table that respects the primary key and has no empty key
  (keys are 40 bytes), with a connection without fault and \<open>0 < limit\<close>, reading
  page by page, each time with the last key returned as the cursor, until a page
  has fewer than \<open>limit\<close> rows, ends within a number of pages that is at most
  the number of stored rows plus one, and the concatenation of the pages is
  exactly the list one query with a limit as large as the table returns for the
  same range and filter: no row is missing, and no key occurs twice.
\<close>

theorem pagination_complete:
  assumes "pk_unique s"
    and "\<forall>r\<in>set (envelopes s). id_col r \<noteq> []"
    and "fault s = None"
    and "0 < limit q"
  shows "\<exists>all. query_pages (Suc (length (envelopes s))) s q = Some (Inr all)
           \<and> BuildIterator s (q\<lparr>limit := int (length (envelopes s))\<rparr>) = Inr all
           \<and> distinct (map fst all)"
proof -
  have "length (scan_all s q) < Suc (length (envelopes s))"
    using length_scan_all [of s q] by simp
  with assms have 1: "query_pages (Suc (length (envelopes s))) s q = Some (Inr (scan_all s q))"
    by (intro query_pages_all)
  have "BuildIterator s (q\<lparr>limit := int (length (envelopes s))\<rparr>)
      = Inr (take (length (envelopes s)) (scan_all s (q\<lparr>limit := int (length (envelopes s))\<rparr>)))"
    using BuildIterator_no_fault [OF assms(3), of "q\<lparr>limit := int (length (envelopes s))\<rparr>"]
    by (simp add: scan_all_def)
  then have 2: "BuildIterator s (q\<lparr>limit := int (length (envelopes s))\<rparr>) = Inr (scan_all s q)"
    using length_scan_all [of s q] by (simp add: scan_all_limit)
  from 1 2 scan_all_distinct [OF assms(1), of q] show ?thesis
    by blast
qed

theorem pagination_complete_witness:
  "pk_unique ex_store
   \<and> [] \<notin> set (map id_col (envelopes ex_store))
   \<and> fault ex_store = None
   \<and> 0 < limit (ex_query 2)
   \<and> query_pages (Suc (length (envelopes ex_store))) ex_store (ex_query 2) =
       Some (Inr [(envelope_key (ex_env 300 3), [1, 2, 3]), (envelope_key (ex_env 200 2), [1, 2, 3]),
                  (envelope_key (ex_env 100 1), [1, 2, 3])])"
proof -
  have h1: "pk_unique ex_store"
    by code_simp
  have h2': "[] \<notin> set (map id_col (envelopes ex_store))"
    by code_simp
  then have h2: "\<forall>r\<in>set (envelopes ex_store). id_col r \<noteq> []"
    by (auto simp: image_iff)
  have h4: "0 < limit (ex_query 2)"
    by (simp add: ex_query_def)
  have one: "BuildIterator ex_store ((ex_query 2)\<lparr>limit := int (length (envelopes ex_store))\<rparr>) =
       Inr [(envelope_key (ex_env 300 3), [1, 2, 3]), (envelope_key (ex_env 200 2), [1, 2, 3]),
            (envelope_key (ex_env 100 1), [1, 2, 3])]"
    by code_simp
  from pagination_complete [OF h1 h2 ex_store_fault h4] obtain all
    where a: "query_pages (Suc (length (envelopes ex_store))) ex_store (ex_query 2) = Some (Inr all)"
      and b: "BuildIterator ex_store ((ex_query 2)\<lparr>limit := int (length (envelopes ex_store))\<rparr>) = Inr all"
    by blast
  from b have "Inr all = (Inr [(envelope_key (ex_env 300 3), [1, 2, 3]), (envelope_key (ex_env 200 2), [1, 2, 3]),
            (envelope_key (ex_env 100 1), [1, 2, 3])] :: error + (bytes \<times> bytes) list)"
    unfolding one by (rule sym)
  then have "all = [(envelope_key (ex_env 300 3), [1, 2, 3]), (envelope_key (ex_env 200 2), [1, 2, 3]),
            (envelope_key (ex_env 100 1), [1, 2, 3])]"
    by (simp only: sum.inject)
  with a have c: "query_pages (Suc (length (envelopes ex_store))) ex_store (ex_query 2) =
       Some (Inr [(envelope_key (ex_env 300 3), [1, 2, 3]), (envelope_key (ex_env 200 2), [1, 2, 3]),
                  (envelope_key (ex_env 100 1), [1, 2, 3])])"
    by (simp only:)
  show ?thesis
    by (intro conjI h1 h2' ex_store_fault h4 c)
qed

subsection \<open>Prune\<close>

lemma Prune_no_fault:
  assumes "fault s = None"
  shows "Prune s t batch =
     ((int (length (filter (between (NewDBKey 0 (0, 0, 0, 0) (replicate 32 0))
                              (NewDBKey (word_of_int t) (0, 0, 0, 0) (replicate 32 0))) (envelopes s))), None),
      s\<lparr>envelopes := filter (\<lambda>r. \<not> between (NewDBKey 0 (0, 0, 0, 0) (replicate 32 0))
                              (NewDBKey (word_of_int t) (0, 0, 0, 0) (replicate 32 0)) r) (envelopes s)\<rparr>)"
  using assms by (simp add: Prune_def Let_def)

lemma length_filter_compl:
  "int (length (filter P xs)) = int (length xs) - int (length (filter (\<lambda>x. \<not> P x) xs))"
  using sum_length_filter_compl [of P xs] by simp

text \<open>
  C6, as the claim states it, fails: \<^verbatim>\<open>BETWEEN\<close> includes its upper bound, the key
  made of the cutoff time with the zero topic and the zero hash. A row with that
  key was sent at the cutoff time, not before it, and is deleted.
\<close>

theorem Prune_sentinel_counterexample:
  "envelope_key ((ex_env 100 0)\<lparr>Topic := (0, 0, 0, 0)\<rparr>) = NewDBKey 100 (0, 0, 0, 0) (replicate 32 0)
   \<and> NewDBKey 100 (0, 0, 0, 0) (replicate 32 0) \<in> set (map id_col (envelopes ex_store_sentinel))
   \<and> \<not> ((100 :: uint32) < word_of_int 100)
   \<and> fst (Prune ex_store_sentinel 100 10) = (1, None)
   \<and> NewDBKey 100 (0, 0, 0, 0) (replicate 32 0)
        \<notin> set (map id_col (envelopes (snd (Prune ex_store_sentinel 100 10))))"
proof -
  have 1: "envelope_key ((ex_env 100 0)\<lparr>Topic := (0, 0, 0, 0)\<rparr>) = NewDBKey 100 (0, 0, 0, 0) (replicate 32 0)"
    by (simp add: envelope_key_def ex_env_def)
  have 2: "NewDBKey 100 (0, 0, 0, 0) (replicate 32 0) \<in> set (map id_col (envelopes ex_store_sentinel))"
    by code_simp
  have 3: "\<not> ((100 :: uint32) < word_of_int 100)"
    by simp
  have 4: "fst (Prune ex_store_sentinel 100 10) = (1, None)"
    by code_simp
  have 5: "NewDBKey 100 (0, 0, 0, 0) (replicate 32 0)
        \<notin> set (map id_col (envelopes (snd (Prune ex_store_sentinel 100 10))))"
    by code_simp
  show ?thesis
    by (intro conjI 1 2 3 4 5)
qed

text \<open>
  C6, amended. On a connection without fault, \<^verbatim>\<open>Prune\<close> deletes exactly the rows
  whose key lies between the key of time 0 and the key of the cutoff time (as a
  \<^verbatim>\<open>uint32\<close>), both with the zero topic and the zero hash, bounds included. For a
  row whose key is made of a sent time, a topic and a 32-byte hash this means:
  it is deleted when it was sent before the cutoff, and of the rows sent at the
  cutoff or later only the one with the zero topic and the zero hash sent at the
  cutoff is deleted. \<^verbatim>\<open>Prune\<close> returns the number of rows deleted, and calling
  it again with the same cutoff deletes nothing and returns 0.
\<close>

theorem Prune_key_range:
  assumes "fault s = None"
  shows "fst (Prune s t batch) =
           (int (length (envelopes s)) - int (length (envelopes (snd (Prune s t batch)))), None)
         \<and> envelopes (snd (Prune s t batch)) =
             filter (\<lambda>r. \<not> (NewDBKey 0 (0, 0, 0, 0) (replicate 32 0) \<le> id_col r
                           \<and> id_col r \<le> NewDBKey (word_of_int t) (0, 0, 0, 0) (replicate 32 0)))
               (envelopes s)
         \<and> (\<forall>r\<in>set (envelopes s). \<forall>ts tp h. id_col r = NewDBKey ts tp h \<and> length h = 32 \<longrightarrow>
               (r \<in> set (envelopes (snd (Prune s t batch))) \<longleftrightarrow>
                  \<not> (ts < word_of_int t
                      \<or> (ts = word_of_int t \<and> tp = (0, 0, 0, 0) \<and> h = replicate 32 0))))
         \<and> Prune (snd (Prune s t batch)) t batch = ((0, None), snd (Prune s t batch))"
proof -
  let ?kl = "NewDBKey 0 (0, 0, 0, 0) (replicate 32 0)"
  let ?ku = "NewDBKey (word_of_int t) (0, 0, 0, 0) (replicate 32 0)"
  let ?rest = "filter (\<lambda>r. \<not> between ?kl ?ku r) (envelopes s)"
  note p = Prune_no_fault [OF assms, of t batch]
  have snd_eq: "snd (Prune s t batch) = s\<lparr>envelopes := ?rest\<rparr>"
    by (simp add: p)
  have rest: "envelopes (snd (Prune s t batch)) = ?rest"
    by (simp add: snd_eq)
  have 1: "fst (Prune s t batch) =
           (int (length (envelopes s)) - int (length (envelopes (snd (Prune s t batch)))), None)"
    unfolding rest by (simp add: p length_filter_compl [of "between ?kl ?ku"])
  have 2: "envelopes (snd (Prune s t batch)) =
             filter (\<lambda>r. \<not> (?kl \<le> id_col r \<and> id_col r \<le> ?ku)) (envelopes s)"
    unfolding rest by (simp add: between_def)
  have 3: "r \<in> set (envelopes (snd (Prune s t batch))) \<longleftrightarrow>
                  \<not> (ts < word_of_int t
                      \<or> (ts = word_of_int t \<and> tp = (0, 0, 0, 0) \<and> h = replicate 32 0))"
    if "r \<in> set (envelopes s)" "id_col r = NewDBKey ts tp h" "length h = 32" for r ts tp h
    using between_key [OF that(3), of "word_of_int t" r ts tp] that(1,2) unfolding rest by auto
  have f': "fault (snd (Prune s t batch)) = None"
    using assms by (simp add: snd_eq)
  have "filter (between ?kl ?ku) ?rest = []"
    by (simp add: filter_empty_conv)
  moreover have "filter (\<lambda>r. \<not> between ?kl ?ku r) ?rest = ?rest"
    by simp
  ultimately have 4: "Prune (snd (Prune s t batch)) t batch = ((0, None), snd (Prune s t batch))"
    unfolding Prune_no_fault [OF f'] rest by (simp add: snd_eq)
  from 3 have all3: "\<forall>r\<in>set (envelopes s). \<forall>ts tp h. id_col r = NewDBKey ts tp h \<and> length h = 32 \<longrightarrow>
               (r \<in> set (envelopes (snd (Prune s t batch))) \<longleftrightarrow>
                  \<not> (ts < word_of_int t
                      \<or> (ts = word_of_int t \<and> tp = (0, 0, 0, 0) \<and> h = replicate 32 0)))"
    by blast
  show ?thesis
    by (intro conjI 1 2 all3 4)
qed

theorem Prune_key_range_witness:
  "fault ex_store = None
   \<and> envelopes ex_store ! 0 \<in> set (envelopes ex_store)
   \<and> id_col (envelopes ex_store ! 0) = NewDBKey 100 (65, 65, 65, 65) (replicate 32 1)
   \<and> length (replicate 32 (1 :: byte)) = 32
   \<and> (100 :: uint32) < word_of_int 200
   \<and> envelopes ex_store ! 0 \<notin> set (envelopes (snd (Prune ex_store 200 10)))
   \<and> fst (Prune ex_store 200 10) = (1, None)
   \<and> map id_col (envelopes (snd (Prune ex_store 200 10)))
        = [envelope_key (ex_env 200 2), envelope_key (ex_env 300 3)]
   \<and> Prune (snd (Prune ex_store 200 10)) 200 10 = ((0, None), snd (Prune ex_store 200 10))"
proof -
  note c = Prune_key_range [OF ex_store_fault, of 200 10]
  have 1: "envelopes ex_store ! 0 \<in> set (envelopes ex_store)"
    by code_simp
  have 2: "id_col (envelopes ex_store ! 0) = NewDBKey 100 (65, 65, 65, 65) (replicate 32 1)"
    by code_simp
  have 3: "length (replicate 32 (1 :: byte)) = 32"
    by simp
  have 4: "(100 :: uint32) < word_of_int 200"
    by simp
  from c 1 2 3 4 have 5: "envelopes ex_store ! 0 \<notin> set (envelopes (snd (Prune ex_store 200 10)))"
    by blast
  have 6: "fst (Prune ex_store 200 10) = (1, None)"
    by code_simp
  have 7: "map id_col (envelopes (snd (Prune ex_store 200 10)))
        = [envelope_key (ex_env 200 2), envelope_key (ex_env 300 3)]"
    by code_simp
  from c have 8: "Prune (snd (Prune ex_store 200 10)) 200 10 = ((0, None), snd (Prune ex_store 200 10))"
    by blast
  show ?thesis
    by (intro conjI ex_store_fault 1 2 3 4 5 6 7 8)
qed

text \<open>
  C10. The result of \<^verbatim>\<open>Prune\<close> does not depend on its \<^verbatim>\<open>batch\<close> argument: for
  every state, every cutoff time and any two batch values, the two calls return
  the same count and error and leave the same state (so they delete the same
  rows).
\<close>

theorem Prune_batch_independent: "Prune s t b1 = Prune s t b2"
  by (simp add: Prune_def)

end
